theory Spec2Isabelle
  imports Complex_Main "HOL-Library.Multiset" "HOL-Library.Log_Nat"
begin

section \<open>Benjamini-Hochberg FDR correction (\<open>fdr_bh\<close> of \<open>test_fdr.py\<close>)\<close>

text \<open>
  The routine works on numpy arrays of double precision numbers. A number is modelled by
  the real it denotes, and the one non-number the routine handles, NaN, by \<open>None\<close>: a cell
  of an array is a \<open>real option\<close>. Comparisons and \<open>min\<close> are exact in the source;
  a quotient or a product is the exact result rounded to the nearest double, ties to even
  (\<open>round_double\<close>). The exponent range is taken as unbounded: overflow to infinity and
  the gradual underflow below \<open>2 powi -1022\<close> are not modelled.
\<close>

type_synonym float = "real option"

abbreviation NaN :: float where
  "NaN \<equiv> None"

subsection \<open>Double precision arithmetic\<close>

text \<open>
  \<open>rne\<close> rounds a real to the nearest integer, ties to the even one. For \<open>x > 0\<close>,
  \<open>expo x\<close> is the exponent of the binade of \<open>x\<close>, \<open>2 powi expo x \<le> x < 2 powi (expo x + 1)\<close>,
  and \<open>round_pos x\<close> keeps 53 significant bits of \<open>x\<close>.
\<close>

definition rne :: "real \<Rightarrow> int" where
  "rne y = (let f = \<lfloor>y\<rfloor>; r = y - of_int f
            in if r < 1 / 2 then f else if 1 / 2 < r then f + 1 else if even f then f else f + 1)"

definition expo :: "real \<Rightarrow> int" where
  "expo x = (if 1 \<le> x then bitlen \<lfloor>x\<rfloor> - 1 else - bitlen (\<lceil>1 / x\<rceil> - 1))"

definition round_pos :: "real \<Rightarrow> real" where
  "round_pos x = of_int (rne (x * 2 powi (52 - expo x))) * 2 powi (expo x - 52)"

definition round_double :: "real \<Rightarrow> real" where
  "round_double x = (if x = 0 then 0 else if 0 < x then round_pos x else - round_pos (- x))"

definition fdiv :: "real \<Rightarrow> real \<Rightarrow> real" where
  "fdiv a b = round_double (a / b)"

definition fmul :: "real \<Rightarrow> real \<Rightarrow> real" where
  "fmul a b = round_double (a * b)"

subsection \<open>Errors\<close>

datatype error = IndexError | ValueError

definition err_bind :: "error + 'a \<Rightarrow> ('a \<Rightarrow> error + 'b) \<Rightarrow> error + 'b" where
  "err_bind r f = (case r of Inl e \<Rightarrow> Inl e | Inr x \<Rightarrow> f x)"

subsection \<open>The array operations the routine uses\<close>

definition isnan :: "float \<Rightarrow> bool" where
  "isnan x = (x = NaN)"

text \<open>\<open>a[i]\<close> and \<open>a[i] = v\<close> for an index \<open>i \<ge> 0\<close>; \<open>a[-1]\<close> and \<open>a[-1] = v\<close>.\<close>

definition get :: "'a list \<Rightarrow> nat \<Rightarrow> error + 'a" where
  "get a i = (if i < length a then Inr (a ! i) else Inl IndexError)"

definition put :: "'a list \<Rightarrow> nat \<Rightarrow> 'a \<Rightarrow> error + 'a list" where
  "put a i v = (if i < length a then Inr (a[i := v]) else Inl IndexError)"

definition get_last :: "'a list \<Rightarrow> error + 'a" where
  "get_last a = (if a = [] then Inl IndexError else Inr (last a))"

definition put_last :: "'a list \<Rightarrow> 'a \<Rightarrow> error + 'a list" where
  "put_last a v = (if a = [] then Inl IndexError else Inr (a[length a - 1 := v]))"

text \<open>
  \<open>a[mask]\<close> and \<open>a[mask] = vs\<close> for a boolean mask: the cells under a true flag, in
  order. numpy refuses a mask of another length than the array, and an assignment whose
  right-hand side has not one value for each true flag.
\<close>

fun mask_select :: "'a list \<Rightarrow> bool list \<Rightarrow> 'a list" where
  "mask_select (x # xs) (b # bs) = (if b then x # mask_select xs bs else mask_select xs bs)"
| "mask_select _ _ = []"

fun mask_assign :: "'a list \<Rightarrow> bool list \<Rightarrow> 'a list \<Rightarrow> 'a list" where
  "mask_assign (x # xs) (True # bs) (v # vs) = v # mask_assign xs bs vs"
| "mask_assign (x # xs) (False # bs) vs = x # mask_assign xs bs vs"
| "mask_assign xs _ _ = xs"

definition mask_get :: "'a list \<Rightarrow> bool list \<Rightarrow> error + 'a list" where
  "mask_get a msk =
     (if length msk \<noteq> length a then Inl IndexError else Inr (mask_select a msk))"

definition mask_put :: "'a list \<Rightarrow> bool list \<Rightarrow> 'a list \<Rightarrow> error + 'a list" where
  "mask_put a msk vs =
     (if length msk \<noteq> length a then Inl IndexError
      else if length (filter (\<lambda>b. b) msk) \<noteq> length vs then Inl ValueError
      else Inr (mask_assign a msk vs))"

text \<open>
  \<open>a[idx]\<close> and \<open>a[idx] = vs\<close> for an array of indices. The assignment writes the values
  in order, so that the last write to a cell stays. A right-hand side of another length
  than \<open>idx\<close> is refused here (numpy would still broadcast a single value; the routine
  never assigns one).
\<close>

definition take_idx :: "'a list \<Rightarrow> nat list \<Rightarrow> error + 'a list" where
  "take_idx a idx =
     (if list_all (\<lambda>i. i < length a) idx then Inr (map (\<lambda>i. a ! i) idx)
      else Inl IndexError)"

definition put_idx :: "'a list \<Rightarrow> nat list \<Rightarrow> 'a list \<Rightarrow> error + 'a list" where
  "put_idx a idx vs =
     (if length idx \<noteq> length vs then Inl ValueError
      else if \<not> list_all (\<lambda>i. i < length a) idx then Inl IndexError
      else Inr (fold (\<lambda>(i, v) acc. acc[i := v]) (zip idx vs) a))"

text \<open>\<open>np.where(mask)[0]\<close>: the indices of the true flags, ascending.\<close>

definition where_true :: "bool list \<Rightarrow> nat list" where
  "where_true msk = filter (\<lambda>i. msk ! i) [0..<length msk]"

text \<open>
  \<open>np.argsort\<close>: a permutation of the indices along which the values ascend. The model
  sorts the indices stably by their value; for p-values in \<open>[0, 1]\<close> any other order of
  equal values gives the same result (\<open>argsort_order_irrelevant\<close> below).
\<close>

definition argsort :: "real list \<Rightarrow> nat list" where
  "argsort xs = sort_key (\<lambda>i. xs ! i) [0..<length xs]"

text \<open>
  Python's builtin \<open>min(a, b)\<close> keeps \<open>a\<close> unless \<open>b < a\<close>, and a comparison with NaN is
  false.
\<close>

definition float_less :: "float \<Rightarrow> float \<Rightarrow> bool" where
  "float_less a b = (case (a, b) of (Some x, Some y) \<Rightarrow> x < y | _ \<Rightarrow> False)"

definition py_min :: "float \<Rightarrow> float \<Rightarrow> float" where
  "py_min a b = (if float_less b a then b else a)"

subsection \<open>The routine\<close>

text \<open>
  Lines 22 to 35: the thresholds \<open>(rank / n_valid) * q\<close>, the last rank whose sorted
  p-value is within its threshold, the critical p-value and the flags in sorted order.
\<close>

definition find_crit :: "real list \<Rightarrow> nat \<Rightarrow> real \<Rightarrow> error + (real \<times> bool list)" where
  "find_crit sorted_pvals n_valid q =
     (let ranks = [1..<n_valid + 1];
          bh_threshold = map (\<lambda>r. fmul (fdiv (real r) (real n_valid)) q) ranks;
          significant_mask = map2 (\<lambda>p t. p \<le> t) sorted_pvals bh_threshold
      in if \<not> list_ex (\<lambda>b. b) significant_mask
         then Inr (0, replicate n_valid False)
         else err_bind (get_last (where_true significant_mask)) (\<lambda>significant_idx.
              err_bind (get sorted_pvals significant_idx) (\<lambda>crit_p.
              Inr (crit_p, map (\<lambda>p. p \<le> crit_p) sorted_pvals))))"

text \<open>
  Lines 38 to 42: the adjusted p-values in sorted order. \<open>adj_loop n_valid sorted_pvals k\<close>
  runs the body of the \<open>for\<close> loop for \<open>i = k - 1\<close> down to \<open>0\<close>; the loop of the source is
  \<open>range(n_valid - 2, -1, -1)\<close>, that is \<open>k = n_valid - 1\<close>.
\<close>

fun adj_loop :: "nat \<Rightarrow> real list \<Rightarrow> nat \<Rightarrow> float list \<Rightarrow> error + float list" where
  "adj_loop n_valid sorted_pvals 0 adj_p_sorted = Inr adj_p_sorted"
| "adj_loop n_valid sorted_pvals (Suc i) adj_p_sorted =
     err_bind (get sorted_pvals i) (\<lambda>p.
     err_bind (get adj_p_sorted (i + 1)) (\<lambda>nxt.
     err_bind (put adj_p_sorted i
                 (py_min (Some 1) (py_min (Some (fmul (fdiv (real n_valid) (real (i + 1))) p)) nxt)))
       (adj_loop n_valid sorted_pvals i)))"

definition adjust :: "real list \<Rightarrow> nat \<Rightarrow> error + float list" where
  "adjust sorted_pvals n_valid =
     err_bind (get_last sorted_pvals) (\<lambda>l.
     err_bind (put_last (replicate n_valid NaN) (Some l))
       (adj_loop n_valid sorted_pvals (n_valid - 1)))"

text \<open>
  Lines 18 to 49, on the valid p-values and with the sorting permutation given: sort,
  decide, adjust, and write flags and adjusted values back to the order of
  \<open>valid_pvals\<close>.
\<close>

definition bh_valid ::
  "nat list \<Rightarrow> real list \<Rightarrow> real \<Rightarrow> error + (bool list \<times> real \<times> float list)" where
  "bh_valid sorted_idx valid_pvals q =
     (let n_valid = length valid_pvals in
      err_bind (take_idx valid_pvals sorted_idx) (\<lambda>sorted_pvals.
      err_bind (find_crit sorted_pvals n_valid q) (\<lambda>(crit_p, h_valid).
      err_bind (adjust sorted_pvals n_valid) (\<lambda>adj_p_sorted.
      err_bind (put_idx (replicate n_valid False) sorted_idx h_valid) (\<lambda>h_unsorted.
      err_bind (put_idx (replicate n_valid NaN) sorted_idx adj_p_sorted) (\<lambda>adj_p_unsorted.
      Inr (h_unsorted, crit_p, adj_p_unsorted)))))))"

text \<open>
  The whole function. It returns the flags \<open>h\<close>, the critical p-value \<open>crit_p\<close> (a number,
  or NaN when every entry is missing) and the adjusted p-values \<open>adj_p\<close>.
\<close>

definition fdr_bh :: "float list \<Rightarrow> real \<Rightarrow> error + (bool list \<times> float \<times> float list)" where
  "fdr_bh pvals q =
     (if length pvals = 0 then Inr ([], Some 0, [])
      else
        let valid_mask = map (\<lambda>p. \<not> isnan p) pvals in
        err_bind (mask_get pvals valid_mask) (\<lambda>valid_cells.
        let valid_pvals = map the valid_cells;
            n_valid = length valid_pvals
        in if n_valid = 0
           then Inr (replicate (length pvals) False, NaN, replicate (length pvals) NaN)
           else
             let sorted_idx = argsort valid_pvals in
             err_bind (bh_valid sorted_idx valid_pvals q) (\<lambda>(h_unsorted, crit_p, adj_p_unsorted).
             err_bind (mask_put (replicate (length pvals) False) valid_mask h_unsorted) (\<lambda>h.
             err_bind (mask_put (replicate (length pvals) NaN) valid_mask adj_p_unsorted) (\<lambda>adj_p.
             Inr (h, Some crit_p, adj_p))))))"

text \<open>
  The inputs of the first two tests (lines 69 and 110). A decimal literal of the source
  denotes the double nearest to it.
\<close>

definition p_vals_1 :: "float list" where
  "p_vals_1 = map (\<lambda>d. Some (round_double d))
     [0.001, 0.008, 0.039, 0.041, 0.042, 0.060, 0.074, 0.205, 0.212, 0.216]"

definition p_vals_2 :: "float list" where
  "p_vals_2 = map (\<lambda>d. Some (round_double d))
     [0.06, 0.08, 0.10, 0.15, 0.20, 0.30, 0.40, 0.50, 0.60, 0.70, 0.80]"

subsection \<open>Notions the properties are stated with\<close>

text \<open>
  The valid entries of the input in input order (what \<open>valid_pvals\<close> holds), the test
  \<open>P(k) \<le> (k / m) * q\<close> at the sorted position \<open>k\<close> (rank \<open>k + 1\<close>), and the
  domain of the routine: every entry that is a number is a double in \<open>[0, 1]\<close>.
\<close>

fun valids :: "float list \<Rightarrow> real list" where
  "valids [] = []"
| "valids (None # ps) = valids ps"
| "valids (Some v # ps) = v # valids ps"

definition passes :: "real list \<Rightarrow> real \<Rightarrow> nat \<Rightarrow> bool" where
  "passes sp q k = (sp ! k \<le> fmul (fdiv (real (k + 1)) (real (length sp))) q)"

definition is_pvals :: "float list \<Rightarrow> bool" where
  "is_pvals pvals =
     list_all (\<lambda>p. case p of None \<Rightarrow> True | Some v \<Rightarrow> 0 \<le> v \<and> v \<le> 1 \<and> round_double v = v) pvals"

text \<open>
  The positions of the valid entries, ascending, and what it is for a list of positions
  to enumerate them in ascending order of their raw p-value (ties in any order).
\<close>

definition valid_positions :: "float list \<Rightarrow> nat list" where
  "valid_positions pvals = filter (\<lambda>i. \<not> isnan (pvals ! i)) [0..<length pvals]"

definition ascending_order :: "float list \<Rightarrow> nat list \<Rightarrow> bool" where
  "ascending_order pvals ord \<longleftrightarrow>
     mset ord = mset (valid_positions pvals) \<and> sorted (map (\<lambda>i. the (pvals ! i)) ord)"

text \<open>
  The step-down recurrence of the adjusted values over the sorted p-values, as a
  relation between the two sequences.
\<close>

definition step_down :: "real list \<Rightarrow> real list \<Rightarrow> bool" where
  "step_down sp b \<longleftrightarrow>
     length b = length sp \<and> b ! (length sp - 1) = sp ! (length sp - 1) \<and>
     (\<forall>j. j + 1 < length sp \<longrightarrow>
        b ! j = min 1 (min (fmul (fdiv (real (length sp)) (real (j + 1))) (sp ! j)) (b ! (j + 1))))"

text \<open>
  The two comparisons of a run agree when, at every rank \<open>k\<close> of the sorted p-values, the
  computed product \<open>(m / k) * P(k)\<close> is at most \<open>q\<close> exactly when \<open>P(k)\<close> is at most the
  computed threshold \<open>(k / m) * q\<close>.
\<close>

definition comparisons_agree :: "real list \<Rightarrow> real \<Rightarrow> bool" where
  "comparisons_agree sp q =
     list_all (\<lambda>k. (fmul (fdiv (real (length sp)) (real (k + 1))) (sp ! k) \<le> q)
                   = (sp ! k \<le> fmul (fdiv (real (k + 1)) (real (length sp))) q))
       [0..<length sp]"

text \<open>
  An input at a threshold boundary: seven tests with p-value 0.035 and three with
  p-value 1.0, for \<open>q = 0.05\<close>.
\<close>

definition boundary_pvals :: "float list" where
  "boundary_pvals = map Some (replicate 7 (round_double 0.035) @ replicate 3 1)"

section \<open>Properties of the rounding\<close>

lemma rne_bounds: "\<lfloor>y\<rfloor> \<le> rne y \<and> rne y \<le> \<lfloor>y\<rfloor> + 1"
  by (simp add: rne_def Let_def)

lemma rne_of_int: "rne (of_int n) = n"
  by (simp add: rne_def Let_def)

lemma rne_mono:
  assumes "x \<le> y"
  shows "rne x \<le> rne y"
proof (cases "\<lfloor>x\<rfloor> = \<lfloor>y\<rfloor>")
  case True
  have "x - of_int \<lfloor>x\<rfloor> \<le> y - of_int \<lfloor>y\<rfloor>" using assms True by simp
  then show ?thesis unfolding rne_def Let_def True by auto
next
  case False
  have "\<lfloor>x\<rfloor> \<le> \<lfloor>y\<rfloor>" using assms by (rule floor_mono)
  then have "\<lfloor>x\<rfloor> + 1 \<le> \<lfloor>y\<rfloor>" using False by simp
  then show ?thesis using rne_bounds [of x] rne_bounds [of y] by linarith
qed

lemma expo_bounds:
  assumes "0 < x"
  shows "2 powi (expo x) \<le> x" and "x < 2 powi (expo x + 1)"
proof -
  have "2 powi (expo x) \<le> x \<and> x < 2 powi (expo x + 1)"
  proof (cases "1 \<le> x")
    case True
    let ?n = "\<lfloor>x\<rfloor>"
    have n: "0 < ?n" using True by simp
    have b1: "1 \<le> bitlen ?n" using n by (simp add: bitlen_alt_def)
    from bitlen_bounds [OF n] have lo: "2 ^ nat (bitlen ?n - 1) \<le> ?n" and hi: "?n < 2 ^ nat (bitlen ?n)"
      by simp_all
    have e: "expo x = bitlen ?n - 1" using True by (simp add: expo_def)
    have "(2::real) powi (bitlen ?n - 1) = 2 ^ nat (bitlen ?n - 1)"
      using b1 by (simp add: power_int_nonneg_exp)
    also have "\<dots> = of_int (2 ^ nat (bitlen ?n - 1))" by simp
    also have "\<dots> \<le> of_int ?n" using lo by (simp only: of_int_le_iff)
    also have "\<dots> \<le> x" by simp
    finally have l: "2 powi (expo x) \<le> x" unfolding e .
    have "?n + 1 \<le> 2 ^ nat (bitlen ?n)" using hi by simp
    then have "of_int (?n + 1) \<le> (of_int (2 ^ nat (bitlen ?n)) :: real)" by (simp only: of_int_le_iff)
    then have "of_int ?n + 1 \<le> (2::real) ^ nat (bitlen ?n)" by simp
    moreover have "x < of_int ?n + 1" by linarith
    ultimately have "x < (2::real) ^ nat (bitlen ?n)" by linarith
    also have "\<dots> = 2 powi (bitlen ?n)" using b1 by (simp add: power_int_nonneg_exp)
    finally have "x < 2 powi (expo x + 1)" unfolding e by simp
    with l show ?thesis by simp
  next
    case False
    let ?y = "1 / x"
    let ?m = "\<lceil>?y\<rceil>"
    have y1: "1 < ?y" using False assms by simp
    then have m: "0 < ?m - 1" by linarith
    let ?b = "bitlen (?m - 1)"
    have b1: "1 \<le> ?b" using m by (simp add: bitlen_alt_def)
    from bitlen_bounds [OF m] have lo: "2 ^ nat (?b - 1) \<le> ?m - 1" and hi: "?m - 1 < 2 ^ nat ?b"
      by simp_all
    have e: "expo x = - ?b" using False by (simp add: expo_def)
    have "?m \<le> 2 ^ nat ?b" using hi by simp
    then have "of_int ?m \<le> (of_int (2 ^ nat ?b) :: real)" by (simp only: of_int_le_iff)
    then have "of_int ?m \<le> (2::real) ^ nat ?b" by simp
    moreover have "?y \<le> of_int ?m" by simp
    ultimately have "?y \<le> (2::real) ^ nat ?b" by linarith
    also have "\<dots> = 2 powi ?b" using b1 by (simp add: power_int_nonneg_exp)
    finally have "1 / x \<le> 2 powi ?b" .
    then have "1 \<le> 2 powi ?b * x" using assms by (simp add: field_simps)
    then have "1 / 2 powi ?b \<le> x" by (simp add: field_simps)
    then have l: "2 powi (expo x) \<le> x" unfolding e by (simp add: power_int_minus_divide)
    have "(of_int (2 ^ nat (?b - 1)) :: real) \<le> of_int (?m - 1)" using lo by (simp only: of_int_le_iff)
    then have "(2::real) ^ nat (?b - 1) \<le> of_int ?m - 1" by simp
    moreover have "of_int ?m - 1 < ?y" by linarith
    ultimately have "(2::real) ^ nat (?b - 1) < ?y" by linarith
    moreover have "(2::real) ^ nat (?b - 1) = 2 powi (?b - 1)" using b1 by (simp add: power_int_nonneg_exp)
    ultimately have "2 powi (?b - 1) < 1 / x" by simp
    then have "2 powi (?b - 1) * x < 1" using assms by (simp add: field_simps)
    then have "x < 1 / 2 powi (?b - 1)" by (simp add: field_simps)
    also have "\<dots> = 2 powi (- (?b - 1))" by (simp only: power_int_minus_divide)
    finally have "x < 2 powi (- (?b - 1))" .
    moreover have "- (?b - 1) = expo x + 1" unfolding e by simp
    ultimately have "x < 2 powi (expo x + 1)" by (simp only:)
    with l show ?thesis by simp
  qed
  then show "2 powi (expo x) \<le> x" and "x < 2 powi (expo x + 1)" by simp_all
qed

lemma expo_mono:
  assumes "0 < x" "x \<le> y"
  shows "expo x \<le> expo y"
proof (rule ccontr)
  assume "\<not> expo x \<le> expo y"
  then have "expo y + 1 \<le> expo x" by simp
  then have "(2::real) powi (expo y + 1) \<le> 2 powi (expo x)"
    by (intro power_int_increasing) simp_all
  moreover have "2 powi (expo x) \<le> x" using expo_bounds(1) [OF assms(1)] .
  moreover have "y < 2 powi (expo y + 1)" using expo_bounds(2) [of y] assms by simp
  ultimately show False using assms(2) by linarith
qed

lemma scaled_bounds:
  assumes "0 < x"
  shows "2 ^ 52 \<le> x * 2 powi (52 - expo x)" and "x * 2 powi (52 - expo x) < 2 ^ 53"
proof -
  have p: "(0::real) < 2 powi (52 - expo x)" by simp
  have ea: "expo x + (52 - expo x) = 52" and eb: "expo x + 1 + (52 - expo x) = 53" by simp_all
  have "(2::real) powi (expo x) * 2 powi (52 - expo x) = 2 powi (expo x + (52 - expo x))"
    by (rule power_int_add [symmetric]) simp
  then have a: "(2::real) powi (expo x) * 2 powi (52 - expo x) = 2 ^ 52"
    by (simp only: ea power_int_numeral)
  have "(2::real) powi (expo x + 1) * 2 powi (52 - expo x) = 2 powi (expo x + 1 + (52 - expo x))"
    by (rule power_int_add [symmetric]) simp
  then have b: "(2::real) powi (expo x + 1) * 2 powi (52 - expo x) = 2 ^ 53"
    by (simp only: eb power_int_numeral)
  have "2 powi (expo x) * 2 powi (52 - expo x) \<le> x * 2 powi (52 - expo x)"
    using expo_bounds(1) [OF assms] p by (simp only: mult_le_cancel_right_pos)
  then show "2 ^ 52 \<le> x * 2 powi (52 - expo x)" unfolding a .
  have "x * 2 powi (52 - expo x) < 2 powi (expo x + 1) * 2 powi (52 - expo x)"
    using expo_bounds(2) [OF assms] p by (simp only: mult_less_cancel_right_pos)
  then show "x * 2 powi (52 - expo x) < 2 ^ 53" unfolding b .
qed

lemma round_pos_bounds:
  assumes "0 < x"
  shows "2 powi (expo x) \<le> round_pos x" and "round_pos x \<le> 2 powi (expo x + 1)"
proof -
  let ?s = "x * 2 powi (52 - expo x)"
  have "rne (of_int (2 ^ 52)) \<le> rne ?s"
    using scaled_bounds(1) [OF assms] by (intro rne_mono) simp
  then have lo: "2 ^ 52 \<le> rne ?s" by (simp only: rne_of_int)
  have "rne ?s \<le> rne (of_int (2 ^ 53))"
    using scaled_bounds(2) [OF assms] by (intro rne_mono) simp
  then have hi: "rne ?s \<le> 2 ^ 53" by (simp only: rne_of_int)
  have p: "(0::real) < 2 powi (expo x - 52)" by simp
  have ea: "52 + (expo x - 52) = expo x" and eb: "53 + (expo x - 52) = expo x + 1" by simp_all
  have "(2::real) powi 52 * 2 powi (expo x - 52) = 2 powi (52 + (expo x - 52))"
    by (rule power_int_add [symmetric]) simp
  then have a: "(2::real) ^ 52 * 2 powi (expo x - 52) = 2 powi (expo x)"
    by (simp only: ea power_int_numeral)
  have "(2::real) powi 53 * 2 powi (expo x - 52) = 2 powi (53 + (expo x - 52))"
    by (rule power_int_add [symmetric]) simp
  then have b: "(2::real) ^ 53 * 2 powi (expo x - 52) = 2 powi (expo x + 1)"
    by (simp only: eb power_int_numeral)
  have "(of_int (2 ^ 52) :: real) \<le> of_int (rne ?s)" using lo by (simp only: of_int_le_iff)
  then have "(2::real) ^ 52 * 2 powi (expo x - 52) \<le> of_int (rne ?s) * 2 powi (expo x - 52)"
    using p by simp
  then show "2 powi (expo x) \<le> round_pos x" unfolding a round_pos_def .
  have "(of_int (rne ?s) :: real) \<le> of_int (2 ^ 53)" using hi by (simp only: of_int_le_iff)
  then have "of_int (rne ?s) * 2 powi (expo x - 52) \<le> (2::real) ^ 53 * 2 powi (expo x - 52)"
    using p by simp
  then show "round_pos x \<le> 2 powi (expo x + 1)" unfolding b round_pos_def .
qed

lemma round_pos_mono:
  assumes "0 < x" "x \<le> y"
  shows "round_pos x \<le> round_pos y"
proof (cases "expo x = expo y")
  case True
  have "x * 2 powi (52 - expo y) \<le> y * 2 powi (52 - expo y)"
    using assms(2) by simp
  then have "rne (x * 2 powi (52 - expo y)) \<le> rne (y * 2 powi (52 - expo y))" by (rule rne_mono)
  then have "(of_int (rne (x * 2 powi (52 - expo y))) :: real) \<le> of_int (rne (y * 2 powi (52 - expo y)))"
    by (simp only: of_int_le_iff)
  then show ?thesis unfolding round_pos_def True by simp
next
  case False
  then have "expo x + 1 \<le> expo y" using expo_mono [OF assms] by simp
  then have "(2::real) powi (expo x + 1) \<le> 2 powi (expo y)"
    by (intro power_int_increasing) simp_all
  moreover have "round_pos x \<le> 2 powi (expo x + 1)" using round_pos_bounds(2) [OF assms(1)] .
  moreover have "2 powi (expo y) \<le> round_pos y" using round_pos_bounds(1) [of y] assms by simp
  ultimately show ?thesis by linarith
qed

lemma round_double_nonneg: "0 \<le> x \<Longrightarrow> 0 \<le> round_double x"
proof -
  assume "0 \<le> x"
  show ?thesis
  proof (cases "x = 0")
    case True
    then show ?thesis by (simp add: round_double_def)
  next
    case False
    then have x: "0 < x" using \<open>0 \<le> x\<close> by simp
    have "(0::real) < 2 powi (expo x)" by simp
    then have "0 < round_pos x" using round_pos_bounds(1) [OF x] by linarith
    then show ?thesis using x by (simp add: round_double_def)
  qed
qed

lemma round_double_mono:
  assumes "0 \<le> x" "x \<le> y"
  shows "round_double x \<le> round_double y"
proof (cases "x = 0")
  case True
  then show ?thesis using round_double_nonneg [of y] assms by (simp add: round_double_def)
next
  case False
  then have "0 < x" "0 < y" using assms by simp_all
  then show ?thesis using round_pos_mono [of x y] assms(2) by (simp add: round_double_def)
qed

lemma round_double_zero: "round_double 0 = 0"
  by (simp add: round_double_def)

lemma round_double_one: "round_double 1 = 1"
  by code_simp

section \<open>Properties of the array operations\<close>

lemma err_bind_Inr: "err_bind (Inr x) f = f x"
  by (simp add: err_bind_def)

lemma valid_cells: "map the (mask_select pvals (map (\<lambda>p. \<not> isnan p) pvals)) = valids pvals"
proof (induction pvals)
  case Nil
  show ?case by simp
next
  case (Cons p ps)
  then show ?case by (cases p) (simp_all add: isnan_def)
qed

lemma count_valid: "length (filter (\<lambda>b. b) (map (\<lambda>p. \<not> isnan p) pvals)) = length (valids pvals)"
proof (induction pvals)
  case Nil
  show ?case by simp
next
  case (Cons p ps)
  then show ?case by (cases p) (simp_all add: isnan_def)
qed

lemma valids_empty_iff: "valids pvals = [] \<longleftrightarrow> (\<forall>p \<in> set pvals. p = NaN)"
proof (induction pvals)
  case Nil
  show ?case by simp
next
  case (Cons p ps)
  then show ?case by (cases p) simp_all
qed

lemma set_valids: "set (valids pvals) = {v. Some v \<in> set pvals}"
proof (induction pvals)
  case Nil
  show ?case by simp
next
  case (Cons p ps)
  then show ?case by (cases p) auto
qed

lemma valids_append: "valids (xs @ ys) = valids xs @ valids ys"
proof (induction xs)
  case Nil
  show ?case by simp
next
  case (Cons p ps)
  then show ?case by (cases p) simp_all
qed

lemma mset_valids: "mset xs = mset ys \<Longrightarrow> mset (valids xs) = mset (valids ys)"
proof -
  have v: "\<And>zs. mset (valids zs) = image_mset the (filter_mset (\<lambda>p. p \<noteq> None) (mset zs))"
  proof -
    fix zs :: "float list"
    show "mset (valids zs) = image_mset the (filter_mset (\<lambda>p. p \<noteq> None) (mset zs))"
    proof (induction zs)
      case Nil
      show ?case by simp
    next
      case (Cons p ps)
      then show ?case by (cases p) simp_all
    qed
  qed
  assume "mset xs = mset ys"
  then show ?thesis by (simp add: v)
qed

text \<open>Writing values back under the mask of the valid entries.\<close>

lemma mask_assign_map:
  "mask_assign (replicate (length pvals) d) (map (\<lambda>p. \<not> isnan p) pvals) (map g (valids pvals))
     = map (\<lambda>p. case p of None \<Rightarrow> d | Some v \<Rightarrow> g v) pvals"
proof (induction pvals)
  case Nil
  show ?case by simp
next
  case (Cons p ps)
  then show ?case by (cases p) (simp_all add: isnan_def)
qed

lemma mask_assign_length:
  "length (mask_assign xs bs vs) = length xs"
  by (induction xs bs vs rule: mask_assign.induct) simp_all

lemma mask_assign_insert:
  "length vs = length (valids (xs @ ys)) \<Longrightarrow>
   mask_assign (replicate (length (xs @ NaN # ys)) d) (map (\<lambda>p. \<not> isnan p) (xs @ NaN # ys)) vs
     = take (length xs) (mask_assign (replicate (length (xs @ ys)) d) (map (\<lambda>p. \<not> isnan p) (xs @ ys)) vs)
       @ d # drop (length xs) (mask_assign (replicate (length (xs @ ys)) d) (map (\<lambda>p. \<not> isnan p) (xs @ ys)) vs)"
proof (induction xs arbitrary: vs)
  case Nil
  show ?case by (simp add: isnan_def)
next
  case (Cons p ps)
  show ?case
  proof (cases p)
    case None
    with Cons show ?thesis by (simp add: isnan_def)
  next
    case (Some v)
    with Cons.prems obtain w ws where vs: "vs = w # ws"
      by (cases vs) simp_all
    with Cons Some show ?thesis by (simp add: isnan_def)
  qed
qed

lemma mask_assign_nth:
  "length vs = length (valids pvals) \<Longrightarrow> i < length pvals \<Longrightarrow>
   mask_assign (replicate (length pvals) d) (map (\<lambda>p. \<not> isnan p) pvals) vs ! i
     = (if pvals ! i = NaN then d else vs ! length (valids (take i pvals)))"
proof (induction pvals arbitrary: vs i)
  case Nil
  then show ?case by simp
next
  case (Cons p ps)
  show ?case
  proof (cases p)
    case None
    with Cons show ?thesis by (cases i) (simp_all add: isnan_def)
  next
    case (Some v)
    with Cons.prems obtain w ws where vs: "vs = w # ws"
      by (cases vs) simp_all
    with Cons Some show ?thesis by (cases i) (simp_all add: isnan_def)
  qed
qed

lemma valids_take_less:
  "i < length pvals \<Longrightarrow> pvals ! i = Some v \<Longrightarrow>
   length (valids (take i pvals)) < length (valids pvals) \<and> valids pvals ! length (valids (take i pvals)) = v"
proof -
  assume i: "i < length pvals" and v: "pvals ! i = Some v"
  have "pvals = take i pvals @ Some v # drop (Suc i) pvals"
    using i v by (metis id_take_nth_drop)
  then have "valids pvals = valids (take i pvals) @ v # valids (drop (Suc i) pvals)"
    by (metis valids_append valids.simps(3))
  then show ?thesis by (simp add: nth_append)
qed

section \<open>The critical p-value\<close>

lemma last_filter_upt:
  "k < n \<Longrightarrow> P k \<Longrightarrow> (\<And>j. k < j \<Longrightarrow> j < n \<Longrightarrow> \<not> P j) \<Longrightarrow> last (filter P [0..<n]) = k"
proof (induction n)
  case 0
  then show ?case by simp
next
  case (Suc n)
  show ?case
  proof (cases "k = n")
    case True
    with Suc.prems show ?thesis by simp
  next
    case False
    with Suc.prems have kn: "k < n" by simp
    have notn: "\<not> P n" using Suc.prems(3) [of n] kn by simp
    have "last (filter P [0..<n]) = k"
      using Suc.IH [OF kn Suc.prems(2)] Suc.prems(3) by simp
    moreover have "filter P [0..<n] \<noteq> []"
      using kn Suc.prems(2) by (auto simp: filter_empty_conv)
    ultimately show ?thesis using notn by simp
  qed
qed

lemma greatest_below:
  "k < (n::nat) \<Longrightarrow> P k \<Longrightarrow> \<exists>m<n. P m \<and> (\<forall>j. m < j \<and> j < n \<longrightarrow> \<not> P j)"
proof (induction n)
  case 0
  then show ?case by simp
next
  case (Suc n)
  show ?case
  proof (cases "P n")
    case True
    then show ?thesis by (intro exI [of _ n]) auto
  next
    case False
    with Suc.prems have "k < n" by (cases "k = n") auto
    from Suc.IH [OF this Suc.prems(2)] obtain m where
      m: "m < n" "P m" "\<forall>j. m < j \<and> j < n \<longrightarrow> \<not> P j" by blast
    show ?thesis
    proof (intro exI [of _ m] conjI allI impI)
      show "m < Suc n" using m(1) by simp
      show "P m" by fact
      fix j assume "m < j \<and> j < Suc n"
      then show "\<not> P j" using m(3) False by (cases "j = n") auto
    qed
  qed
qed

lemma significant_mask_nth:
  assumes "length sp = n" "k < n"
  shows "map2 (\<lambda>p t. p \<le> t) sp (map (\<lambda>r. fmul (fdiv (real r) (real n)) q) [1..<n + 1]) ! k = passes sp q k"
proof -
  have "[1..<n + 1] ! k = k + 1"
    using assms(2) nth_upt [of 1 k "n + 1"] by (simp del: upt_Suc)
  then show ?thesis
    using assms by (simp add: passes_def del: upt_Suc)
qed

lemma significant_mask_length:
  "length sp = n \<Longrightarrow> length (map2 (\<lambda>p t. p \<le> t) sp (map (\<lambda>r. fmul (fdiv (real r) (real n)) q) [1..<n + 1])) = n"
  by (simp del: upt_Suc)

lemma find_crit_none:
  assumes len: "length sp = n" and none: "\<And>k. k < n \<Longrightarrow> \<not> passes sp q k"
  shows "find_crit sp n q = Inr (0, map (\<lambda>p. False) sp)"
proof -
  let ?m = "map2 (\<lambda>p t. p \<le> t) sp (map (\<lambda>r. fmul (fdiv (real r) (real n)) q) [1..<n + 1])"
  have lm: "length ?m = n" using significant_mask_length [OF len] .
  have "\<not> list_ex (\<lambda>b. b) ?m"
  proof
    assume "list_ex (\<lambda>b. b) ?m"
    then obtain b where "b \<in> set ?m" "b" unfolding list_ex_iff by blast
    then obtain k where "k < length ?m" "?m ! k" by (metis in_set_conv_nth)
    then show False using significant_mask_nth [OF len, of k q] none [of k] lm by metis
  qed
  moreover have "replicate n False = map (\<lambda>p. False) sp"
    using len by (simp add: map_replicate_const)
  ultimately show ?thesis unfolding find_crit_def Let_def by simp
qed

lemma find_crit_some:
  assumes len: "length sp = n" and k: "k < n" and p: "passes sp q k"
    and g: "\<And>j. k < j \<Longrightarrow> j < n \<Longrightarrow> \<not> passes sp q j"
  shows "find_crit sp n q = Inr (sp ! k, map (\<lambda>p. p \<le> sp ! k) sp)"
proof -
  let ?m = "map2 (\<lambda>p t. p \<le> t) sp (map (\<lambda>r. fmul (fdiv (real r) (real n)) q) [1..<n + 1])"
  have lm: "length ?m = n" using significant_mask_length [OF len] .
  have nth: "\<And>j. j < n \<Longrightarrow> ?m ! j = passes sp q j"
    using significant_mask_nth [OF len] by blast
  have mk: "?m ! k" using nth [OF k] p by simp
  then have ex: "list_ex (\<lambda>b. b) ?m"
    unfolding list_ex_iff using k lm by (metis nth_mem)
  have "last (filter (\<lambda>i. ?m ! i) [0..<n]) = k"
  proof (rule last_filter_upt [where P = "\<lambda>i. ?m ! i", OF k mk])
    fix j assume "k < j" "j < n"
    then show "\<not> ?m ! j" using nth [of j] g [of j] by simp
  qed
  moreover have "filter (\<lambda>i. ?m ! i) [0..<n] \<noteq> []"
    using k mk by (auto simp: filter_empty_conv)
  ultimately have gl: "get_last (where_true ?m) = Inr k"
    unfolding get_last_def where_true_def lm by simp
  have gk: "get sp k = Inr (sp ! k)" using k len by (simp add: get_def)
  show ?thesis
    unfolding find_crit_def Let_def using ex gl gk by (simp add: err_bind_Inr)
qed

lemma find_crit_total:
  assumes len: "length sp = n"
  shows "\<exists>c F. find_crit sp n q = Inr (c, map F sp)"
proof (cases "\<exists>k<n. passes sp q k")
  case True
  then obtain k where "k < n" "passes sp q k" by blast
  from greatest_below [of k n "passes sp q", OF this] obtain m where
    "m < n" "passes sp q m" "\<forall>j. m < j \<and> j < n \<longrightarrow> \<not> passes sp q j" by blast
  then have "find_crit sp n q = Inr (sp ! m, map (\<lambda>p. p \<le> sp ! m) sp)"
    using find_crit_some [OF len, of m q] by blast
  then show ?thesis by blast
next
  case False
  then have "find_crit sp n q = Inr (0, map (\<lambda>p. False) sp)"
    using find_crit_none [OF len, of q] by blast
  then show ?thesis by blast
qed

section \<open>The adjusted p-values in sorted order\<close>

lemma py_min_Some: "py_min (Some x) (Some y) = Some (min x y)"
  by (simp add: py_min_def float_less_def min_def)

text \<open>The loop: it leaves the cells from \<open>k\<close> on as they are, and fills those below.\<close>

lemma adj_loop_result:
  assumes "length sp = n" "length adj = n" "k < n"
    and "\<And>j. k \<le> j \<Longrightarrow> j < n \<Longrightarrow> adj ! j = Some (a j)"
  shows "\<exists>b. adj_loop n sp k adj = Inr (map Some b) \<and> length b = n
           \<and> (\<forall>j. k \<le> j \<and> j < n \<longrightarrow> b ! j = a j)
           \<and> (\<forall>j<k. b ! j = min 1 (min (fmul (fdiv (real n) (real (j + 1))) (sp ! j)) (b ! (j + 1))))"
  using assms
proof (induction k arbitrary: adj a)
  case 0
  have "adj = map Some (map a [0..<n])"
    using "0.prems" by (intro nth_equalityI) simp_all
  then show ?case by (intro exI [of _ "map a [0..<n]"]) simp
next
  case (Suc i)
  let ?v = "min 1 (min (fmul (fdiv (real n) (real (i + 1))) (sp ! i)) (a (Suc i)))"
  let ?adj = "adj[i := Some ?v]"
  let ?a = "a(i := ?v)"
  have i: "i < n" using Suc.prems(3) by simp
  have g1: "get sp i = Inr (sp ! i)" using i Suc.prems(1) by (simp add: get_def)
  have nx: "adj ! (i + 1) = Some (a (Suc i))" using Suc.prems(3,4) by simp
  have g2: "get adj (i + 1) = Inr (Some (a (Suc i)))"
    using Suc.prems(2,3) nx by (simp add: get_def)
  have p: "put adj i (Some ?v) = Inr ?adj" using i Suc.prems(2) by (simp add: put_def)
  have step: "adj_loop n sp (Suc i) adj = adj_loop n sp i ?adj"
    by (simp only: adj_loop.simps g1 g2 err_bind_Inr py_min_Some p)
  have pre: "\<And>j. i \<le> j \<Longrightarrow> j < n \<Longrightarrow> ?adj ! j = Some (?a j)"
  proof -
    fix j assume j: "i \<le> j" "j < n"
    show "?adj ! j = Some (?a j)"
    proof (cases "j = i")
      case True
      then show ?thesis using i Suc.prems(2) by simp
    next
      case False
      then have "Suc i \<le> j" using j by simp
      then show ?thesis using Suc.prems(4) [of j] j False by simp
    qed
  qed
  from Suc.IH [of ?adj ?a, OF Suc.prems(1) _ i pre] Suc.prems(2)
  obtain b where b: "adj_loop n sp i ?adj = Inr (map Some b)" "length b = n"
    "\<forall>j. i \<le> j \<and> j < n \<longrightarrow> b ! j = ?a j"
    "\<forall>j<i. b ! j = min 1 (min (fmul (fdiv (real n) (real (j + 1))) (sp ! j)) (b ! (j + 1)))"
    by auto
  have bi: "b ! i = ?v" using b(3) i by simp
  have bs: "b ! (i + 1) = a (Suc i)" using b(3) Suc.prems(3) by simp
  show ?case
  proof (intro exI [of _ b] conjI allI impI)
    show "adj_loop n sp (Suc i) adj = Inr (map Some b)" using step b(1) by simp
    show "length b = n" by fact
  next
    fix j assume "Suc i \<le> j \<and> j < n"
    then show "b ! j = a j" using b(3) by simp
  next
    fix j assume "j < Suc i"
    then show "b ! j = min 1 (min (fmul (fdiv (real n) (real (j + 1))) (sp ! j)) (b ! (j + 1)))"
      using b(4) bi bs by (cases "j = i") simp_all
  qed
qed

lemma adjust_result:
  assumes len: "length sp = n" and ne: "sp \<noteq> []"
  shows "\<exists>b. adjust sp n = Inr (map Some b) \<and> length b = n
           \<and> b ! (n - 1) = sp ! (n - 1)
           \<and> (\<forall>j. j + 1 < n \<longrightarrow> b ! j = min 1 (min (fmul (fdiv (real n) (real (j + 1))) (sp ! j)) (b ! (j + 1))))"
proof -
  let ?adj = "(replicate n NaN)[n - 1 := Some (last sp)]"
  have n: "0 < n" using len ne by auto
  have gl: "get_last sp = Inr (last sp)" using ne by (simp add: get_last_def)
  have pl: "put_last (replicate n NaN) (Some (last sp)) = Inr ?adj"
    using n by (simp add: put_last_def)
  have st: "adjust sp n = adj_loop n sp (n - 1) ?adj"
    by (simp add: adjust_def gl pl err_bind_Inr)
  have pre: "\<And>j. n - 1 \<le> j \<Longrightarrow> j < n \<Longrightarrow> ?adj ! j = Some (last sp)"
  proof -
    fix j assume "n - 1 \<le> j" "j < n"
    then have "j = n - 1" by simp
    then show "?adj ! j = Some (last sp)" using n by simp
  qed
  from adj_loop_result [of sp n ?adj "n - 1" "\<lambda>_. last sp", OF len _ _ pre] n
  obtain b where b: "adj_loop n sp (n - 1) ?adj = Inr (map Some b)" "length b = n"
    "\<forall>j. n - 1 \<le> j \<and> j < n \<longrightarrow> b ! j = last sp"
    "\<forall>j<n - 1. b ! j = min 1 (min (fmul (fdiv (real n) (real (j + 1))) (sp ! j)) (b ! (j + 1)))"
    by auto
  have "last sp = sp ! (n - 1)" using ne len by (simp add: last_conv_nth)
  then have "b ! (n - 1) = sp ! (n - 1)" using b(3) n by simp
  moreover have "\<forall>j. j + 1 < n \<longrightarrow> b ! j = min 1 (min (fmul (fdiv (real n) (real (j + 1))) (sp ! j)) (b ! (j + 1)))"
    using b(4) by (simp add: less_diff_conv)
  ultimately show ?thesis using st b(1,2) by auto
qed

lemma adjust_step_down:
  "sp \<noteq> [] \<Longrightarrow> \<exists>b. adjust sp (length sp) = Inr (map Some b) \<and> step_down sp b"
  using adjust_result [of sp "length sp"] unfolding step_down_def by blast

lemma step_down_Suc:
  "step_down sp b \<Longrightarrow> j + 1 < length sp \<Longrightarrow>
   b ! j = min 1 (min (fmul (fdiv (real (length sp)) (real (j + 1))) (sp ! j)) (b ! (j + 1)))"
  unfolding step_down_def by blast

lemma step_down_last:
  "step_down sp b \<Longrightarrow> b ! (length sp - 1) = sp ! (length sp - 1)"
  unfolding step_down_def by blast

lemma step_down_mono_Suc:
  "step_down sp b \<Longrightarrow> j + 1 < length sp \<Longrightarrow> b ! j \<le> b ! (j + 1)"
  using step_down_Suc [of sp b j] by simp

lemma step_down_mono:
  "step_down sp b \<Longrightarrow> j \<le> k \<Longrightarrow> k < length sp \<Longrightarrow> b ! j \<le> b ! k"
proof (induction k)
  case 0
  then show ?case by simp
next
  case (Suc k)
  show ?case
  proof (cases "j = Suc k")
    case True
    then show ?thesis by simp
  next
    case False
    with Suc.prems have "j \<le> k" "k < length sp" by simp_all
    then have "b ! j \<le> b ! k" using Suc.IH Suc.prems(1) by blast
    moreover have "b ! k \<le> b ! (Suc k)"
      using step_down_mono_Suc [OF Suc.prems(1), of k] Suc.prems(3) by simp
    ultimately show ?thesis by simp
  qed
qed

lemma step_down_le_one:
  assumes sd: "step_down sp b" and one: "\<And>v. v \<in> set sp \<Longrightarrow> v \<le> 1" and k: "k < length sp"
  shows "b ! k \<le> 1"
proof -
  have "b ! k \<le> b ! (length sp - 1)"
    using step_down_mono [OF sd, of k "length sp - 1"] k by simp
  also have "\<dots> = sp ! (length sp - 1)" using step_down_last [OF sd] .
  also have "\<dots> \<le> 1" using one k by simp
  finally show ?thesis .
qed

lemma fdiv_ge_one:
  assumes "j + 1 \<le> n"
  shows "1 \<le> fdiv (real n) (real (j + 1))"
proof -
  have "1 \<le> real n / real (j + 1)" using assms by simp
  then have "round_double 1 \<le> round_double (real n / real (j + 1))"
    by (intro round_double_mono) simp_all
  then show ?thesis by (simp add: fdiv_def round_double_one)
qed

lemma ratio_ge:
  assumes "j + 1 \<le> n" "0 \<le> v" "round_double v = v"
  shows "v \<le> fmul (fdiv (real n) (real (j + 1))) v"
proof -
  have "1 * v \<le> fdiv (real n) (real (j + 1)) * v"
    using fdiv_ge_one [OF assms(1)] assms(2) by (rule mult_right_mono)
  then have "round_double v \<le> round_double (fdiv (real n) (real (j + 1)) * v)"
    using assms(2) by (intro round_double_mono) simp_all
  then show ?thesis using assms(3) by (simp add: fmul_def)
qed

lemma ratio_antimono:
  assumes "0 \<le> (v::real)"
  shows "fmul (fdiv (real n) (real (j + 2))) v \<le> fmul (fdiv (real n) (real (j + 1))) v"
proof -
  have q: "0 \<le> real n / real (j + 2)" by simp
  have "real n / real (j + 2) \<le> real n / real (j + 1)"
    by (intro divide_left_mono) simp_all
  then have d: "fdiv (real n) (real (j + 2)) \<le> fdiv (real n) (real (j + 1))"
    unfolding fdiv_def using q by (intro round_double_mono)
  have d0: "0 \<le> fdiv (real n) (real (j + 2))"
    unfolding fdiv_def using q by (rule round_double_nonneg)
  have "fdiv (real n) (real (j + 2)) * v \<le> fdiv (real n) (real (j + 1)) * v"
    using d assms by (rule mult_right_mono)
  moreover have "0 \<le> fdiv (real n) (real (j + 2)) * v" using d0 assms by simp
  ultimately show ?thesis unfolding fmul_def by (intro round_double_mono)
qed

lemma step_down_tie_Suc:
  assumes sd: "step_down sp b" and j: "j + 1 < length sp"
    and tie: "sp ! j = sp ! (j + 1)" and lo: "0 \<le> sp ! j" and hi: "sp ! j \<le> 1"
    and dbl: "round_double (sp ! j) = sp ! j"
  shows "b ! j = b ! (j + 1)"
proof -
  let ?n = "length sp"
  let ?v = "sp ! j"
  have bj: "b ! j = min 1 (min (fmul (fdiv (real ?n) (real (j + 1))) ?v) (b ! (j + 1)))"
    using step_down_Suc [OF sd j] .
  show ?thesis
  proof (cases "j + 2 < ?n")
    case False
    with j have e: "j + 1 = ?n - 1" by simp
    then have "b ! (j + 1) = ?v" using step_down_last [OF sd] tie by simp
    moreover have "?v \<le> fmul (fdiv (real ?n) (real (j + 1))) ?v"
      using ratio_ge [of j ?n ?v] j lo dbl by simp
    ultimately show ?thesis using bj hi by simp
  next
    case True
    have "b ! (j + 1) = min 1 (min (fmul (fdiv (real ?n) (real (j + 1 + 1))) (sp ! (j + 1))) (b ! (j + 1 + 1)))"
      using step_down_Suc [OF sd, of "j + 1"] True by simp
    then have "b ! (j + 1) \<le> 1" "b ! (j + 1) \<le> fmul (fdiv (real ?n) (real (j + 2))) ?v"
      using tie by (simp_all add: add.commute)
    moreover have "fmul (fdiv (real ?n) (real (j + 2))) ?v \<le> fmul (fdiv (real ?n) (real (j + 1))) ?v"
      using ratio_antimono [OF lo] .
    ultimately show ?thesis using bj by simp
  qed
qed

lemma step_down_tie:
  assumes sd: "step_down sp b" and srt: "sorted sp"
    and unit: "\<And>v. v \<in> set sp \<Longrightarrow> 0 \<le> v \<and> v \<le> 1 \<and> round_double v = v"
  shows "j \<le> k \<Longrightarrow> k < length sp \<Longrightarrow> sp ! j = sp ! k \<Longrightarrow> b ! j = b ! k"
proof (induction k)
  case 0
  then show ?case by simp
next
  case (Suc k)
  show ?case
  proof (cases "j = Suc k")
    case True
    then show ?thesis by simp
  next
    case False
    with Suc.prems have jk: "j \<le> k" and k: "k < length sp" by simp_all
    have "sp ! j \<le> sp ! k" using srt jk k by (simp add: sorted_iff_nth_mono)
    moreover have "sp ! k \<le> sp ! Suc k"
      using srt Suc.prems(2) by (simp add: sorted_iff_nth_mono)
    ultimately have e: "sp ! j = sp ! k" "sp ! k = sp ! (k + 1)"
      using Suc.prems(3) by simp_all
    have "b ! j = b ! k" using Suc.IH [OF jk k e(1)] .
    moreover have "b ! k = b ! (k + 1)"
      using step_down_tie_Suc [OF sd _ e(2)] Suc.prems(2) unit [of "sp ! k"] k by simp
    ultimately show ?thesis by simp
  qed
qed

lemma step_down_tie_any:
  assumes "step_down sp b" "sorted sp"
    "\<And>v. v \<in> set sp \<Longrightarrow> 0 \<le> v \<and> v \<le> 1 \<and> round_double v = v"
    and "j < length sp" "k < length sp" "sp ! j = sp ! k"
  shows "b ! j = b ! k"
proof (cases "j \<le> k")
  case True
  then show ?thesis using step_down_tie [OF assms(1-3), of j k] assms(5,6) by simp
next
  case False
  then have "k \<le> j" by simp
  then show ?thesis using step_down_tie [OF assms(1-3), of k j] assms(4,6) by simp
qed

lemma passes_ratio:
  assumes "k < length sp" "comparisons_agree sp q"
  shows "(fmul (fdiv (real (length sp)) (real (k + 1))) (sp ! k) \<le> q) = passes sp q k"
proof -
  have "k \<in> set [0..<length sp]" using assms(1) by simp
  then show ?thesis using assms(2) unfolding comparisons_agree_def list_all_iff passes_def by blast
qed

lemma fmul_one_double:
  assumes "0 < n" "round_double v = v"
  shows "fmul (fdiv (real n) (real n)) v = v"
proof -
  have "real n / real n = 1" using assms(1) by simp
  then have "fdiv (real n) (real n) = 1" by (simp add: fdiv_def round_double_one)
  then show ?thesis using assms(2) by (simp add: fmul_def)
qed

lemma passes_last:
  assumes "sp \<noteq> []" "comparisons_agree sp q"
    and "round_double (sp ! (length sp - 1)) = sp ! (length sp - 1)"
  shows "passes sp q (length sp - 1) = (sp ! (length sp - 1) \<le> q)"
proof -
  have n: "0 < length sp" using assms(1) by simp
  then have k: "length sp - 1 < length sp" by simp
  have e: "length sp - 1 + 1 = length sp" using n by simp
  have "(fmul (fdiv (real (length sp)) (real (length sp - 1 + 1))) (sp ! (length sp - 1)) \<le> q)
          = passes sp q (length sp - 1)"
    using passes_ratio [OF k assms(2)] .
  then show ?thesis unfolding e fmul_one_double [OF n assms(3)] by simp
qed

lemma step_down_le_q:
  assumes sd: "step_down sp b"
    and one: "\<And>v. v \<in> set sp \<Longrightarrow> v \<le> 1 \<and> round_double v = v"
    and ex: "comparisons_agree sp q"
  shows "k < length sp \<Longrightarrow> (b ! k \<le> q) = (\<exists>j. k \<le> j \<and> j < length sp \<and> passes sp q j)"
proof (induction "length sp - 1 - k" arbitrary: k)
  case 0
  then have k: "k = length sp - 1" and ne: "sp \<noteq> []" by auto
  have dl: "round_double (sp ! (length sp - 1)) = sp ! (length sp - 1)" using one ne by simp
  have "(b ! k \<le> q) = passes sp q k"
    using step_down_last [OF sd] passes_last [OF ne ex dl] k by simp
  moreover have "\<And>j. k \<le> j \<and> j < length sp \<Longrightarrow> j = k" using k by linarith
  ultimately show ?case using "0.prems" by auto
next
  case (Suc d)
  then have k1: "k + 1 < length sp" and d: "d = length sp - 1 - (k + 1)" by simp_all
  have ne: "sp \<noteq> []" using k1 by auto
  have ih: "(b ! (k + 1) \<le> q) = (\<exists>j. k + 1 \<le> j \<and> j < length sp \<and> passes sp q j)"
    using Suc.hyps(1) [OF d k1] .
  have bk: "b ! k = min 1 (min (fmul (fdiv (real (length sp)) (real (k + 1))) (sp ! k)) (b ! (k + 1)))"
    using step_down_Suc [OF sd k1] .
  have pk: "(fmul (fdiv (real (length sp)) (real (k + 1))) (sp ! k) \<le> q) = passes sp q k"
    using passes_ratio [of k sp q] Suc.prems ex by simp
  show ?case
  proof (cases "1 \<le> q")
    case True
    have dl: "round_double (sp ! (length sp - 1)) = sp ! (length sp - 1)" using one ne by simp
    have "sp ! (length sp - 1) \<le> 1" using one ne by simp
    then have "passes sp q (length sp - 1)" using passes_last [OF ne ex dl] True by simp
    moreover have "b ! k \<le> q" using bk True by simp
    ultimately show ?thesis using Suc.prems by (intro iffI exI [of _ "length sp - 1"]) auto
  next
    case False
    then have "(b ! k \<le> q) = (passes sp q k \<or> b ! (k + 1) \<le> q)"
      using bk pk by (auto simp: min_le_iff_disj)
    also have "\<dots> = (\<exists>j. k \<le> j \<and> j < length sp \<and> passes sp q j)"
    proof
      assume "passes sp q k \<or> b ! (k + 1) \<le> q"
      then show "\<exists>j. k \<le> j \<and> j < length sp \<and> passes sp q j"
        using ih Suc.prems by (metis Suc_eq_plus1 Suc_leD order_refl)
    next
      assume "\<exists>j. k \<le> j \<and> j < length sp \<and> passes sp q j"
      then obtain j where j: "k \<le> j" "j < length sp" "passes sp q j" by blast
      show "passes sp q k \<or> b ! (k + 1) \<le> q"
      proof (cases "j = k")
        case True
        then show ?thesis using j by simp
      next
        case False
        then have "k + 1 \<le> j" using j by simp
        then show ?thesis using ih j by blast
      qed
    qed
    finally show ?thesis .
  qed
qed

section \<open>Sorting and writing back\<close>

lemma fold_update:
  "distinct idx \<Longrightarrow> length vs = length idx \<Longrightarrow>
   length (fold (\<lambda>(i, v) acc. acc[i := v]) (zip idx vs) a) = length a
   \<and> (\<forall>k<length idx. idx ! k < length a \<longrightarrow>
         fold (\<lambda>(i, v) acc. acc[i := v]) (zip idx vs) a ! (idx ! k) = vs ! k)
   \<and> (\<forall>j. j \<notin> set idx \<longrightarrow> fold (\<lambda>(i, v) acc. acc[i := v]) (zip idx vs) a ! j = a ! j)"
proof (induction idx arbitrary: vs a)
  case Nil
  then show ?case by simp
next
  case (Cons i js)
  then obtain w ws where vs: "vs = w # ws" by (cases vs) simp_all
  let ?f = "\<lambda>(i, v) acc. acc[i := v]"
  have d: "distinct js" "i \<notin> set js" using Cons.prems(1) by simp_all
  have l: "length ws = length js" using Cons.prems(2) vs by simp
  note ih = Cons.IH [OF d(1) l, of "a[i := w]"]
  have f: "fold ?f (zip (i # js) vs) a = fold ?f (zip js ws) (a[i := w])"
    using vs by simp
  show ?case
  proof (intro conjI allI impI)
    show "length (fold ?f (zip (i # js) vs) a) = length a" using ih f by simp
  next
    fix k assume k: "k < length (i # js)" and b: "(i # js) ! k < length a"
    show "fold ?f (zip (i # js) vs) a ! ((i # js) ! k) = vs ! k"
    proof (cases k)
      case 0
      then show ?thesis using ih d(2) f vs b by simp
    next
      case (Suc k')
      then show ?thesis using ih f vs k b by simp
    qed
  next
    fix j assume "j \<notin> set (i # js)"
    then show "fold ?f (zip (i # js) vs) a ! j = a ! j" using ih f by simp
  qed
qed

lemma perm_upt_facts:
  assumes "mset idx = mset [0..<n]"
  shows "distinct idx" "set idx = {0..<n}" "length idx = n"
proof -
  show "distinct idx" using assms by (metis distinct_upt mset_eq_imp_distinct_iff)
  show "set idx = {0..<n}" using assms by (metis mset_eq_setD set_upt)
  show "length idx = n" using assms by (metis mset_eq_length length_upt diff_zero)
qed

lemma take_idx_perm:
  assumes "mset idx = mset [0..<length xs]"
  shows "take_idx xs idx = Inr (map (\<lambda>i. xs ! i) idx)"
  using perm_upt_facts(2) [OF assms] by (simp add: take_idx_def list_all_iff)

lemma put_idx_perm:
  assumes p: "mset idx = mset [0..<n]" and len: "length xs = n"
  shows "put_idx (replicate n d) idx (map g (map (\<lambda>i. xs ! i) idx)) = Inr (map g xs)"
proof -
  let ?vs = "map g (map (\<lambda>i. xs ! i) idx)"
  let ?r = "fold (\<lambda>(i, v) acc. acc[i := v]) (zip idx ?vs) (replicate n d)"
  note pf = perm_upt_facts [OF p]
  have all: "list_all (\<lambda>i. i < length (replicate n d)) idx"
    using pf(2) by (simp add: list_all_iff)
  have put: "put_idx (replicate n d) idx ?vs = Inr ?r"
    using all by (simp add: put_idx_def)
  have fu: "length ?r = n"
    "\<And>k. k < length idx \<Longrightarrow> idx ! k < n \<Longrightarrow> ?r ! (idx ! k) = ?vs ! k"
    using fold_update [OF pf(1), of ?vs "replicate n d"] by simp_all
  have "?r = map g xs"
  proof (rule nth_equalityI)
    show "length ?r = length (map g xs)" using fu(1) len by simp
  next
    fix j assume "j < length ?r"
    then have j: "j < n" using fu(1) by simp
    then have "j \<in> set idx" using pf(2) by simp
    then obtain k where k: "k < length idx" "idx ! k = j" by (metis in_set_conv_nth)
    then have "?r ! j = ?vs ! k" using fu(2) [of k] j by simp
    also have "\<dots> = g (xs ! j)" using k by simp
    finally show "?r ! j = map g xs ! j" using j len by simp
  qed
  then show ?thesis using put by simp
qed

lemma put_idx_total:
  assumes p: "mset idx = mset [0..<n]" and len: "length vs = n"
  shows "\<exists>r. put_idx (replicate n d) idx vs = Inr r \<and> length r = n \<and> set r \<subseteq> set vs"
proof -
  let ?r = "fold (\<lambda>(i, v) acc. acc[i := v]) (zip idx vs) (replicate n d)"
  note pf = perm_upt_facts [OF p]
  have all: "list_all (\<lambda>i. i < length (replicate n d)) idx"
    using pf(2) by (simp add: list_all_iff)
  have put: "put_idx (replicate n d) idx vs = Inr ?r"
    using all len pf(3) by (simp add: put_idx_def)
  have fu: "length ?r = n"
    "\<And>k. k < length idx \<Longrightarrow> idx ! k < n \<Longrightarrow> ?r ! (idx ! k) = vs ! k"
    using fold_update [OF pf(1), of vs "replicate n d"] len pf(3) by simp_all
  have "set ?r \<subseteq> set vs"
  proof
    fix x assume "x \<in> set ?r"
    then obtain j where j: "j < n" "?r ! j = x" using fu(1) by (metis in_set_conv_nth)
    then have "j \<in> set idx" using pf(2) by simp
    then obtain k where k: "k < length idx" "idx ! k = j" by (metis in_set_conv_nth)
    then have "?r ! j = vs ! k" using fu(2) [of k] j by simp
    then show "x \<in> set vs" using j(2) k(1) len pf(3) by (metis nth_mem)
  qed
  then show ?thesis using put fu(1) by blast
qed

lemma argsort_perm: "mset (argsort xs) = mset [0..<length xs]"
  by (simp add: argsort_def)

lemma argsort_sorts: "map (\<lambda>i. xs ! i) (argsort xs) = sort xs"
proof -
  let ?ys = "map (\<lambda>i. xs ! i) (argsort xs)"
  have "sorted ?ys" unfolding argsort_def by (rule sorted_sort_key)
  moreover have "mset ?ys = mset xs"
  proof -
    have "mset ?ys = image_mset (\<lambda>i. xs ! i) (mset [0..<length xs])"
      using argsort_perm [of xs] by (metis mset_map)
    also have "\<dots> = mset (map (\<lambda>i. xs ! i) [0..<length xs])" by simp
    also have "\<dots> = mset xs" by (simp add: map_nth)
    finally show ?thesis .
  qed
  ultimately show ?thesis using properties_for_sort [of ?ys xs] by simp
qed

section \<open>The result of the routine\<close>

lemma bh_valid_unfold:
  assumes p: "mset idx = mset [0..<length valid]"
    and fc: "find_crit (map (\<lambda>i. valid ! i) idx) (length valid) q
               = Inr (c, map F (map (\<lambda>i. valid ! i) idx))"
    and ad: "adjust (map (\<lambda>i. valid ! i) idx) (length valid) = Inr adj"
  shows "bh_valid idx valid q =
           err_bind (put_idx (replicate (length valid) NaN) idx adj)
             (\<lambda>au. Inr (map F valid, c, au))"
proof -
  have ti: "take_idx valid idx = Inr (map (\<lambda>i. valid ! i) idx)"
    using take_idx_perm [OF p] .
  have ph: "put_idx (replicate (length valid) False) idx (map F (map (\<lambda>i. valid ! i) idx))
              = Inr (map F valid)"
    using put_idx_perm [OF p refl, where d = False and g = F] by simp
  show ?thesis
    unfolding bh_valid_def Let_def
    by (simp only: ti err_bind_Inr fc ad ph prod.case)
qed

lemma tie_fun:
  assumes len: "length b = length sp"
    and tie: "\<And>j k. j < length sp \<Longrightarrow> k < length sp \<Longrightarrow> sp ! j = sp ! k \<Longrightarrow> b ! j = b ! k"
  shows "\<exists>G. b = map G sp"
proof (intro exI nth_equalityI)
  let ?G = "\<lambda>v. b ! (SOME k. k < length sp \<and> sp ! k = v)"
  show "length b = length (map ?G sp)" using len by simp
  fix j assume "j < length b"
  then have j: "j < length sp" using len by simp
  then have "\<exists>k. k < length sp \<and> sp ! k = sp ! j" by blast
  then have "(SOME k. k < length sp \<and> sp ! k = sp ! j) < length sp
             \<and> sp ! (SOME k. k < length sp \<and> sp ! k = sp ! j) = sp ! j"
    by (rule someI_ex)
  then have "b ! (SOME k. k < length sp \<and> sp ! k = sp ! j) = b ! j"
    using tie j by blast
  then show "b ! j = map ?G sp ! j" using j by simp
qed

lemma fdr_bh_empty: "fdr_bh [] q = Inr ([], Some 0, [])"
  by (simp add: fdr_bh_def)

lemma fdr_bh_all_missing:
  assumes "pvals \<noteq> []" "valids pvals = []"
  shows "fdr_bh pvals q = Inr (replicate (length pvals) False, NaN, replicate (length pvals) NaN)"
proof -
  have mg: "mask_get pvals (map (\<lambda>p. \<not> isnan p) pvals)
          = Inr (mask_select pvals (map (\<lambda>p. \<not> isnan p) pvals))"
    by (simp add: mask_get_def)
  show ?thesis
    unfolding fdr_bh_def Let_def mg err_bind_Inr valid_cells using assms
    by simp
qed

lemma fdr_bh_unfold:
  assumes "valids pvals \<noteq> []"
  shows "fdr_bh pvals q =
     err_bind (bh_valid (argsort (valids pvals)) (valids pvals) q) (\<lambda>(h_unsorted, crit_p, adj_p_unsorted).
     err_bind (mask_put (replicate (length pvals) False) (map (\<lambda>p. \<not> isnan p) pvals) h_unsorted) (\<lambda>h.
     err_bind (mask_put (replicate (length pvals) NaN) (map (\<lambda>p. \<not> isnan p) pvals) adj_p_unsorted) (\<lambda>adj_p.
     Inr (h, Some crit_p, adj_p))))"
proof -
  have ne: "pvals \<noteq> []" using assms by auto
  have mg: "mask_get pvals (map (\<lambda>p. \<not> isnan p) pvals)
          = Inr (mask_select pvals (map (\<lambda>p. \<not> isnan p) pvals))"
    by (simp add: mask_get_def)
  show ?thesis
    unfolding fdr_bh_def Let_def mg err_bind_Inr valid_cells using assms ne
    by simp
qed

lemma mask_put_valid:
  assumes "length vs = length (valids pvals)"
  shows "mask_put (replicate (length pvals) d) (map (\<lambda>p. \<not> isnan p) pvals) vs
           = Inr (mask_assign (replicate (length pvals) d) (map (\<lambda>p. \<not> isnan p) pvals) vs)"
proof -
  have a: "length (map (\<lambda>p. \<not> isnan p) pvals) = length (replicate (length pvals) d)"
    by simp
  have b: "length (filter (\<lambda>b. b) (map (\<lambda>p. \<not> isnan p) pvals)) = length vs"
    using count_valid [of pvals] assms by (simp only:)
  show ?thesis unfolding mask_put_def by (simp only: a b simp_thms if_False)
qed

lemma fdr_bh_valid_form:
  assumes ne: "valids pvals \<noteq> []"
  shows "\<exists>c F b au.
      find_crit (sort (valids pvals)) (length (valids pvals)) q = Inr (c, map F (sort (valids pvals)))
    \<and> adjust (sort (valids pvals)) (length (valids pvals)) = Inr (map Some b)
    \<and> step_down (sort (valids pvals)) b
    \<and> length au = length (valids pvals) \<and> set au \<subseteq> Some ` set b
    \<and> bh_valid (argsort (valids pvals)) (valids pvals) q = Inr (map F (valids pvals), c, au)
    \<and> fdr_bh pvals q =
        Inr (map (\<lambda>p. case p of None \<Rightarrow> False | Some v \<Rightarrow> F v) pvals, Some c,
             mask_assign (replicate (length pvals) NaN) (map (\<lambda>p. \<not> isnan p) pvals) au)"
proof -
  let ?valid = "valids pvals"
  let ?n = "length ?valid"
  let ?idx = "argsort ?valid"
  let ?sp = "sort ?valid"
  have sp: "map (\<lambda>i. ?valid ! i) ?idx = ?sp" by (rule argsort_sorts)
  have lsp: "length ?sp = ?n" by simp
  have spne: "?sp \<noteq> []" using ne by (metis length_0_conv lsp)
  obtain c F where fc: "find_crit ?sp ?n q = Inr (c, map F ?sp)"
    using find_crit_total [OF lsp] by blast
  obtain b where b: "adjust ?sp ?n = Inr (map Some b)" "step_down ?sp b"
    using adjust_step_down [OF spne] lsp by auto
  have lb: "length (map Some b) = ?n" using b(2) by (simp add: step_down_def)
  obtain au where au: "put_idx (replicate ?n NaN) ?idx (map Some b) = Inr au"
    "length au = ?n" "set au \<subseteq> set (map Some b)"
    using put_idx_total [OF argsort_perm lb] by blast
  have bv: "bh_valid ?idx ?valid q = Inr (map F ?valid, c, au)"
    using bh_valid_unfold [OF argsort_perm, of ?valid q c F "map Some b"] fc b(1) au(1)
    by (simp add: sp err_bind_Inr)
  have mh: "mask_put (replicate (length pvals) False) (map (\<lambda>p. \<not> isnan p) pvals) (map F ?valid)
              = Inr (map (\<lambda>p. case p of None \<Rightarrow> False | Some v \<Rightarrow> F v) pvals)"
    using mask_put_valid [of "map F ?valid" pvals False] by (simp add: mask_assign_map)
  have ma: "mask_put (replicate (length pvals) NaN) (map (\<lambda>p. \<not> isnan p) pvals) au
              = Inr (mask_assign (replicate (length pvals) NaN) (map (\<lambda>p. \<not> isnan p) pvals) au)"
    using mask_put_valid [of au pvals NaN] au(2) by simp
  have "fdr_bh pvals q =
        Inr (map (\<lambda>p. case p of None \<Rightarrow> False | Some v \<Rightarrow> F v) pvals, Some c,
             mask_assign (replicate (length pvals) NaN) (map (\<lambda>p. \<not> isnan p) pvals) au)"
    by (simp only: fdr_bh_unfold [OF ne] bv err_bind_Inr prod.case mh ma)
  then show ?thesis using fc b au(2,3) bv by (intro exI [of _ c] exI [of _ F] exI [of _ b] exI [of _ au]) simp
qed

lemma fdr_bh_by_value:
  assumes srt: "sorted sp" and ne: "sp \<noteq> []"
    and unit: "\<And>v. v \<in> set sp \<Longrightarrow> 0 \<le> v \<and> v \<le> 1 \<and> round_double v = v"
  shows "\<exists>c F b G.
      find_crit sp (length sp) q = Inr (c, map F sp)
    \<and> step_down sp b \<and> b = map G sp
    \<and> (\<forall>pvals. sort (valids pvals) = sp \<longrightarrow>
          fdr_bh pvals q =
            Inr (map (\<lambda>p. case p of None \<Rightarrow> False | Some v \<Rightarrow> F v) pvals, Some c,
                 map (map_option G) pvals))"
proof -
  obtain c F where fc: "find_crit sp (length sp) q = Inr (c, map F sp)"
    using find_crit_total [of sp "length sp"] by blast
  obtain b where b: "adjust sp (length sp) = Inr (map Some b)" "step_down sp b"
    using adjust_step_down [OF ne] by blast
  have lb: "length b = length sp" using b(2) by (simp add: step_down_def)
  obtain G where G: "b = map G sp"
    using tie_fun [OF lb] step_down_tie_any [OF b(2) srt unit] by blast
  have "\<forall>pvals. sort (valids pvals) = sp \<longrightarrow>
          fdr_bh pvals q =
            Inr (map (\<lambda>p. case p of None \<Rightarrow> False | Some v \<Rightarrow> F v) pvals, Some c,
                 map (map_option G) pvals)"
  proof (intro allI impI)
    fix pvals :: "float list"
    assume s: "sort (valids pvals) = sp"
    let ?valid = "valids pvals"
    let ?n = "length ?valid"
    let ?idx = "argsort ?valid"
    have sp: "map (\<lambda>i. ?valid ! i) ?idx = sp" using argsort_sorts [of ?valid] s by simp
    have n: "length sp = ?n" using s by (metis length_sort)
    have vne: "?valid \<noteq> []" using ne n by auto
    have eq: "map Some b = map (\<lambda>v. Some (G v)) (map (\<lambda>i. ?valid ! i) ?idx)"
      using G sp by simp
    have pa: "put_idx (replicate ?n NaN) ?idx (map Some b) = Inr (map (\<lambda>v. Some (G v)) ?valid)"
      using put_idx_perm [OF argsort_perm [of ?valid] refl, where d = NaN and g = "\<lambda>v. Some (G v)"]
      by (simp only: eq)
    have bv: "bh_valid ?idx ?valid q = Inr (map F ?valid, c, map (\<lambda>v. Some (G v)) ?valid)"
      using bh_valid_unfold [OF argsort_perm, of ?valid q c F "map Some b"] fc b(1) pa n
      by (simp add: sp err_bind_Inr)
    have mh: "mask_put (replicate (length pvals) False) (map (\<lambda>p. \<not> isnan p) pvals) (map F ?valid)
                = Inr (map (\<lambda>p. case p of None \<Rightarrow> False | Some v \<Rightarrow> F v) pvals)"
      using mask_put_valid [of "map F ?valid" pvals False] by (simp add: mask_assign_map)
    have "map (\<lambda>p. case p of None \<Rightarrow> NaN | Some v \<Rightarrow> Some (G v)) pvals = map (map_option G) pvals"
      by (intro map_cong refl) (simp split: option.splits)
    then have ma: "mask_put (replicate (length pvals) NaN) (map (\<lambda>p. \<not> isnan p) pvals)
                     (map (\<lambda>v. Some (G v)) ?valid) = Inr (map (map_option G) pvals)"
      using mask_put_valid [of "map (\<lambda>v. Some (G v)) ?valid" pvals NaN]
      by (simp add: mask_assign_map)
    show "fdr_bh pvals q =
            Inr (map (\<lambda>p. case p of None \<Rightarrow> False | Some v \<Rightarrow> F v) pvals, Some c,
                 map (map_option G) pvals)"
      by (simp only: fdr_bh_unfold [OF vne] bv err_bind_Inr prod.case mh ma)
  qed
  then show ?thesis using fc b(2) G by blast
qed

lemma fdr_bh_lengths:
  "\<exists>h crit_p adj_p. fdr_bh pvals q = Inr (h, crit_p, adj_p)
      \<and> length h = length pvals \<and> length adj_p = length pvals"
proof (cases "pvals = []")
  case True
  then show ?thesis by (simp add: fdr_bh_empty)
next
  case False
  show ?thesis
  proof (cases "valids pvals = []")
    case True
    then show ?thesis using fdr_bh_all_missing [OF False True, of q] by simp
  next
    case False
    from fdr_bh_valid_form [OF False, of q] obtain c F au where
      "fdr_bh pvals q =
        Inr (map (\<lambda>p. case p of None \<Rightarrow> False | Some v \<Rightarrow> F v) pvals, Some c,
             mask_assign (replicate (length pvals) NaN) (map (\<lambda>p. \<not> isnan p) pvals) au)"
      by blast
    then show ?thesis by (simp add: mask_assign_length)
  qed
qed

lemma flags_cong:
  assumes "map F (sort (valids pvals)) = map F' (sort (valids pvals))"
  shows "map (\<lambda>p. case p of None \<Rightarrow> False | Some v \<Rightarrow> F v) pvals
           = map (\<lambda>p. case p of None \<Rightarrow> False | Some v \<Rightarrow> F' v) pvals"
proof (rule map_cong [OF refl])
  fix p assume p: "p \<in> set pvals"
  show "(case p of None \<Rightarrow> False | Some v \<Rightarrow> F v) = (case p of None \<Rightarrow> False | Some v \<Rightarrow> F' v)"
  proof (cases p)
    case None
    then show ?thesis by simp
  next
    case (Some v)
    then have "v \<in> set (sort (valids pvals))" using p by (simp add: set_valids)
    then have "F v = F' v" using assms by (metis map_eq_conv)
    then show ?thesis using Some by simp
  qed
qed

lemma fdr_bh_some_passes:
  assumes k: "k < length (valids pvals)" and p: "passes (sort (valids pvals)) q k"
    and g: "\<And>j. k < j \<Longrightarrow> j < length (valids pvals) \<Longrightarrow> \<not> passes (sort (valids pvals)) q j"
  shows "\<exists>adj_p. fdr_bh pvals q =
           Inr (map (\<lambda>p. case p of None \<Rightarrow> False | Some v \<Rightarrow> v \<le> sort (valids pvals) ! k) pvals,
                Some (sort (valids pvals) ! k), adj_p)"
proof -
  let ?sp = "sort (valids pvals)"
  have ne: "valids pvals \<noteq> []" using k by auto
  from fdr_bh_valid_form [OF ne, of q] obtain c F adj_p where
    fc: "find_crit ?sp (length (valids pvals)) q = Inr (c, map F ?sp)" and
    r: "fdr_bh pvals q = Inr (map (\<lambda>p. case p of None \<Rightarrow> False | Some v \<Rightarrow> F v) pvals, Some c, adj_p)"
    by blast
  have "find_crit ?sp (length (valids pvals)) q = Inr (?sp ! k, map (\<lambda>p. p \<le> ?sp ! k) ?sp)"
    using find_crit_some [of ?sp "length (valids pvals)" k q] k p g by simp
  then have c: "c = ?sp ! k" and F: "map F ?sp = map (\<lambda>p. p \<le> ?sp ! k) ?sp"
    using fc by simp_all
  show ?thesis using r c flags_cong [OF F] by simp
qed

lemma fdr_bh_none_passes:
  assumes ne: "valids pvals \<noteq> []"
    and g: "\<And>k. k < length (valids pvals) \<Longrightarrow> \<not> passes (sort (valids pvals)) q k"
  shows "\<exists>adj_p. fdr_bh pvals q = Inr (replicate (length pvals) False, Some 0, adj_p)"
proof -
  let ?sp = "sort (valids pvals)"
  from fdr_bh_valid_form [OF ne, of q] obtain c F adj_p where
    fc: "find_crit ?sp (length (valids pvals)) q = Inr (c, map F ?sp)" and
    r: "fdr_bh pvals q = Inr (map (\<lambda>p. case p of None \<Rightarrow> False | Some v \<Rightarrow> F v) pvals, Some c, adj_p)"
    by blast
  have "find_crit ?sp (length (valids pvals)) q = Inr (0, map (\<lambda>p. False) ?sp)"
    using find_crit_none [of ?sp "length (valids pvals)" q] g by simp
  then have c: "c = 0" and F: "map F ?sp = map (\<lambda>p. False) ?sp"
    using fc by simp_all
  have "map (\<lambda>p. case p of None \<Rightarrow> False | Some v \<Rightarrow> False) pvals = replicate (length pvals) False"
    by (induction pvals) (simp_all split: option.splits)
  then show ?thesis using r c flags_cong [OF F] by simp
qed

lemma is_pvals_unit:
  assumes "is_pvals pvals" "v \<in> set (sort (valids pvals))"
  shows "0 \<le> v \<and> v \<le> 1 \<and> round_double v = v"
proof -
  have "Some v \<in> set pvals" using assms(2) by (simp add: set_valids)
  then show ?thesis using assms(1) unfolding is_pvals_def list_all_iff by fastforce
qed

lemma fdr_bh_unit_form:
  assumes "is_pvals pvals" "valids pvals \<noteq> []"
  shows "\<exists>c F b G.
      find_crit (sort (valids pvals)) (length (valids pvals)) q = Inr (c, map F (sort (valids pvals)))
    \<and> step_down (sort (valids pvals)) b \<and> b = map G (sort (valids pvals))
    \<and> (\<forall>pvals'. sort (valids pvals') = sort (valids pvals) \<longrightarrow>
          fdr_bh pvals' q =
            Inr (map (\<lambda>p. case p of None \<Rightarrow> False | Some v \<Rightarrow> F v) pvals', Some c,
                 map (map_option G) pvals'))"
proof -
  have "sort (valids pvals) \<noteq> []" using assms(2) by (metis length_0_conv length_sort)
  then show ?thesis
    using fdr_bh_by_value [of "sort (valids pvals)" q] is_pvals_unit [OF assms(1)] by simp
qed

lemma valid_nth_sorted:
  assumes "i < length pvals" "pvals ! i = Some v"
  shows "\<exists>k<length (sort (valids pvals)). sort (valids pvals) ! k = v"
proof -
  have "Some v \<in> set pvals" using assms by (metis nth_mem)
  then have "v \<in> set (sort (valids pvals))" by (simp add: set_valids)
  then show ?thesis by (metis in_set_conv_nth)
qed

lemma decides_as_adjusted:
  assumes srt: "sorted sp"
    and unit: "\<And>v. v \<in> set sp \<Longrightarrow> 0 \<le> v \<and> v \<le> 1 \<and> round_double v = v"
    and sd: "step_down sp b" and fc: "find_crit sp (length sp) q = Inr (c, map F sp)"
    and ex: "comparisons_agree sp q" and k: "k < length sp"
  shows "(b ! k \<le> q) = F (sp ! k)"
proof -
  have one: "\<And>v. v \<in> set sp \<Longrightarrow> v \<le> 1 \<and> round_double v = v" using unit by blast
  have le: "(b ! k \<le> q) = (\<exists>j. k \<le> j \<and> j < length sp \<and> passes sp q j)"
    using step_down_le_q [OF sd one ex k] .
  show ?thesis
  proof (cases "\<exists>j<length sp. passes sp q j")
    case False
    then have "find_crit sp (length sp) q = Inr (0, map (\<lambda>p. False) sp)"
      using find_crit_none [of sp "length sp" q] by blast
    then have "map F sp = map (\<lambda>p. False) sp" using fc by simp
    then have "\<forall>x \<in> set sp. \<not> F x" by simp
    then have "\<not> F (sp ! k)" using k by simp
    then show ?thesis using le False by auto
  next
    case True
    then obtain j where "j < length sp" "passes sp q j" by blast
    from greatest_below [of j "length sp" "passes sp q", OF this] obtain m where
      m: "m < length sp" "passes sp q m" "\<forall>j. m < j \<and> j < length sp \<longrightarrow> \<not> passes sp q j"
      by blast
    then have "find_crit sp (length sp) q = Inr (sp ! m, map (\<lambda>p. p \<le> sp ! m) sp)"
      using find_crit_some [of sp "length sp" m q] by blast
    then have "map F sp = map (\<lambda>p. p \<le> sp ! m) sp" using fc by simp
    then have "\<forall>x \<in> set sp. F x = (x \<le> sp ! m)" by simp
    then have F: "F (sp ! k) = (sp ! k \<le> sp ! m)" using k by simp
    have bm: "b ! m \<le> q" using step_down_le_q [OF sd one ex m(1)] m(1,2) by blast
    show ?thesis
    proof (cases "k \<le> m")
      case True
      then have "sp ! k \<le> sp ! m" using srt m(1) by (simp add: sorted_iff_nth_mono)
      moreover have "b ! k \<le> q" using le True m(1,2) by blast
      ultimately show ?thesis using F by simp
    next
      case False
      then have mk: "m < k" by simp
      have nop: "\<not> (\<exists>j. k \<le> j \<and> j < length sp \<and> passes sp q j)"
        using m(3) mk by (meson less_le_trans)
      have "\<not> sp ! k \<le> sp ! m"
      proof
        assume "sp ! k \<le> sp ! m"
        moreover have "sp ! m \<le> sp ! k" using srt mk k by (simp add: sorted_iff_nth_mono)
        ultimately have "sp ! m = sp ! k" by simp
        then have "b ! m = b ! k"
          using step_down_tie_any [OF sd srt unit m(1) k] by blast
        then show False using bm le nop by simp
      qed
      then show ?thesis using F le nop by simp
    qed
  qed
qed

lemma valid_positions_snoc:
  "valid_positions (xs @ [p]) = valid_positions xs @ (if isnan p then [] else [length xs])"
proof -
  have "filter (\<lambda>i. \<not> isnan ((xs @ [p]) ! i)) [0..<length xs]
          = filter (\<lambda>i. \<not> isnan (xs ! i)) [0..<length xs]"
    by (rule filter_cong) (simp_all add: nth_append)
  then show ?thesis by (simp add: valid_positions_def)
qed

lemma valids_positions:
  "map (\<lambda>i. the (pvals ! i)) (valid_positions pvals) = valids pvals"
proof (induction pvals rule: rev_induct)
  case Nil
  show ?case by (simp add: valid_positions_def)
next
  case (snoc p ps)
  have "set (valid_positions ps) \<subseteq> {0..<length ps}" by (auto simp: valid_positions_def)
  then have "map (\<lambda>i. the ((ps @ [p]) ! i)) (valid_positions ps)
               = map (\<lambda>i. the (ps ! i)) (valid_positions ps)"
    by (intro map_cong refl) (auto simp: nth_append)
  then show ?case using snoc
    by (cases p) (simp_all add: valid_positions_snoc valids_append isnan_def)
qed

lemma valid_positions_set:
  "set (valid_positions pvals) = {i. i < length pvals \<and> pvals ! i \<noteq> NaN}"
  by (auto simp: valid_positions_def isnan_def)

lemma ascending_order_sorted:
  assumes "ascending_order pvals ord"
  shows "map (\<lambda>i. the (pvals ! i)) ord = sort (valids pvals)"
proof -
  let ?f = "\<lambda>i. the (pvals ! i)"
  have "mset (map ?f ord) = image_mset ?f (mset (valid_positions pvals))"
    using assms by (simp add: ascending_order_def)
  also have "\<dots> = mset (map ?f (valid_positions pvals))" by simp
  also have "\<dots> = mset (valids pvals)" by (simp only: valids_positions)
  finally have "mset (map ?f ord) = mset (valids pvals)" .
  moreover have "sorted (map ?f ord)" using assms by (simp add: ascending_order_def)
  ultimately show ?thesis using properties_for_sort [of "map ?f ord" "valids pvals"] by simp
qed

lemma permuted_mset:
  assumes "mset perm = mset [0..<length xs]"
  shows "mset (map (\<lambda>i. xs ! i) perm) = mset xs"
proof -
  have "mset (map (\<lambda>i. xs ! i) perm) = image_mset (\<lambda>i. xs ! i) (mset [0..<length xs])"
    using assms by (metis mset_map)
  also have "\<dots> = mset (map (\<lambda>i. xs ! i) [0..<length xs])" by simp
  also have "\<dots> = mset xs" by (simp add: map_nth)
  finally show ?thesis .
qed

lemma permuted_map:
  assumes "mset perm = mset [0..<length xs]"
  shows "map f (map (\<lambda>i. xs ! i) perm) = map (\<lambda>i. map f xs ! i) perm"
proof -
  have "\<And>i. i \<in> set perm \<Longrightarrow> i < length xs"
    using perm_upt_facts(2) [OF assms] by simp
  then show ?thesis by simp
qed

lemma permuted_replicate:
  assumes "mset perm = mset [0..<n]"
  shows "map (\<lambda>i. replicate n d ! i) perm = replicate n d"
proof -
  have "\<And>i. i \<in> set perm \<Longrightarrow> i < n"
    using perm_upt_facts(2) [OF assms] by simp
  then have "map (\<lambda>i. replicate n d ! i) perm = map (\<lambda>i. d) perm" by simp
  then show ?thesis using perm_upt_facts(3) [OF assms] by (simp add: map_replicate_const)
qed

lemma valids_insert_missing: "valids (take i pvals @ NaN # drop i pvals) = valids pvals"
proof -
  have "valids (take i pvals @ NaN # drop i pvals) = valids (take i pvals) @ valids (drop i pvals)"
    by (simp add: valids_append)
  also have "\<dots> = valids (take i pvals @ drop i pvals)" by (simp only: valids_append)
  finally show ?thesis by simp
qed

lemma bh_valid_value_form:
  assumes p: "mset idx = mset [0..<length valid]"
    and sp: "map (\<lambda>i. valid ! i) idx = sp"
    and fc: "find_crit sp (length valid) q = Inr (c, map F sp)"
    and ad: "adjust sp (length valid) = Inr (map Some (map G sp))"
  shows "bh_valid idx valid q = Inr (map F valid, c, map (\<lambda>v. Some (G v)) valid)"
proof -
  have eq: "map Some (map G sp) = map (\<lambda>v. Some (G v)) (map (\<lambda>i. valid ! i) idx)"
    unfolding sp by simp
  have pa: "put_idx (replicate (length valid) NaN) idx (map Some (map G sp))
              = Inr (map (\<lambda>v. Some (G v)) valid)"
    using put_idx_perm [OF p refl, where d = NaN and g = "\<lambda>v. Some (G v)"]
    by (simp only: eq)
  show ?thesis
    using bh_valid_unfold [OF p, of q c F "map Some (map G sp)"] fc ad pa
    by (simp add: sp err_bind_Inr)
qed

text \<open>
  numpy's default sort is not stable. Whatever order \<open>np.argsort\<close> gives to equal
  p-values, the result is that of the stable order of the model.
\<close>

lemma argsort_order_irrelevant:
  assumes p: "mset idx = mset [0..<length valid]"
    and s: "sorted (map (\<lambda>i. valid ! i) idx)"
    and unit: "\<And>v. v \<in> set valid \<Longrightarrow> 0 \<le> v \<and> v \<le> 1 \<and> round_double v = v"
    and ne: "valid \<noteq> []"
  shows "bh_valid idx valid q = bh_valid (argsort valid) valid q"
proof -
  let ?sp = "sort valid"
  have "mset (map (\<lambda>i. valid ! i) idx) = mset valid" using permuted_mset [OF p] .
  then have sp: "map (\<lambda>i. valid ! i) idx = ?sp"
    using properties_for_sort [of "map (\<lambda>i. valid ! i) idx" valid] s by simp
  have spne: "?sp \<noteq> []" using ne by (metis length_0_conv length_sort)
  have unit': "\<And>v. v \<in> set ?sp \<Longrightarrow> 0 \<le> v \<and> v \<le> 1 \<and> round_double v = v"
    using unit by simp
  obtain c F where fc: "find_crit ?sp (length valid) q = Inr (c, map F ?sp)"
    using find_crit_total [of ?sp "length valid" q] by auto
  obtain b where b: "adjust ?sp (length ?sp) = Inr (map Some b)" "step_down ?sp b"
    using adjust_step_down [OF spne] by blast
  have lb: "length b = length ?sp" using b(2) by (simp add: step_down_def)
  obtain G where G: "b = map G ?sp"
    using tie_fun [OF lb] step_down_tie_any [OF b(2) sorted_sort unit'] by blast
  have ad: "adjust ?sp (length valid) = Inr (map Some (map G ?sp))" using b(1) G by simp
  show ?thesis
    using bh_valid_value_form [OF p sp fc ad]
      bh_valid_value_form [OF argsort_perm argsort_sorts fc ad]
    by simp
qed

section \<open>The inputs of the tests and of the examples\<close>

lemma p_vals_1_length: "length (valids p_vals_1) = 10"
  by code_simp

lemma p_vals_1_rank_2_passes: "passes (sort (valids p_vals_1)) (round_double 0.05) 1"
  by code_simp

lemma p_vals_1_later_fail_all:
  "list_all (\<lambda>j. \<not> passes (sort (valids p_vals_1)) (round_double 0.05) j) [2..<10]"
  by code_simp

lemma p_vals_1_later_fail:
  assumes "1 < j" "j < 10"
  shows "\<not> passes (sort (valids p_vals_1)) (round_double 0.05) j"
proof -
  have "2 \<le> j \<and> j < 10" using assms by simp
  then have "j \<in> {2..<10}" by (simp only: atLeastLessThan_iff)
  then have "j \<in> set [2..<10]" by (simp only: set_upt)
  then show ?thesis using p_vals_1_later_fail_all unfolding list_all_iff by blast
qed

lemma p_vals_1_crit: "sort (valids p_vals_1) ! 1 = round_double 0.008"
  by code_simp

lemma p_vals_1_flags:
  "map (\<lambda>p. case p of None \<Rightarrow> False | Some v \<Rightarrow> v \<le> round_double 0.008) p_vals_1
     = [True, True, False, False, False, False, False, False, False, False]"
  by code_simp

lemma p_vals_1_result:
  "\<exists>adj_p. fdr_bh p_vals_1 (round_double 0.05) =
     Inr ([True, True, False, False, False, False, False, False, False, False],
          Some (round_double 0.008), adj_p)"
proof -
  have k: "1 < length (valids p_vals_1)" by (simp add: p_vals_1_length)
  have g: "\<And>j. 1 < j \<Longrightarrow> j < length (valids p_vals_1)
             \<Longrightarrow> \<not> passes (sort (valids p_vals_1)) (round_double 0.05) j"
    using p_vals_1_later_fail by (simp add: p_vals_1_length)
  from fdr_bh_some_passes [OF k p_vals_1_rank_2_passes g]
  obtain adj_p where r: "fdr_bh p_vals_1 (round_double 0.05) =
           Inr (map (\<lambda>p. case p of None \<Rightarrow> False | Some v \<Rightarrow> v \<le> sort (valids p_vals_1) ! 1) p_vals_1,
                Some (sort (valids p_vals_1) ! 1), adj_p)"
    by blast
  show ?thesis using r unfolding p_vals_1_crit p_vals_1_flags by blast
qed

lemma p_vals_1_is_pvals: "is_pvals p_vals_1"
  by code_simp

lemma p_vals_1_agree: "comparisons_agree (sort (valids p_vals_1)) (round_double 0.05)"
  by code_simp

lemma p_vals_2_length: "length (valids p_vals_2) = 11"
  by code_simp

lemma p_vals_2_all_fail_list:
  "list_all (\<lambda>k. \<not> passes (sort (valids p_vals_2)) (round_double 0.05) k) [0..<11]"
  by code_simp

lemma p_vals_2_all_fail:
  assumes "k < 11"
  shows "\<not> passes (sort (valids p_vals_2)) (round_double 0.05) k"
proof -
  have "0 \<le> k \<and> k < 11" using assms by simp
  then have "k \<in> {0..<11}" by (simp only: atLeastLessThan_iff)
  then have "k \<in> set [0..<11]" by (simp only: set_upt)
  then show ?thesis using p_vals_2_all_fail_list unfolding list_all_iff by blast
qed

lemma p_vals_2_result:
  "\<exists>adj_p. fdr_bh p_vals_2 (round_double 0.05) = Inr (replicate 11 False, Some 0, adj_p)"
proof -
  have "valids p_vals_2 \<noteq> []" using p_vals_2_length by auto
  moreover have "length p_vals_2 = 11" by (simp add: p_vals_2_def)
  ultimately show ?thesis
    using fdr_bh_none_passes [of p_vals_2 "round_double 0.05"] p_vals_2_all_fail p_vals_2_length
    by simp
qed

lemma example_is_pvals: "is_pvals [Some (1 / 64), Some (1 / 2), NaN, Some (1 / 128)]"
  by code_simp

lemma example_result:
  "fdr_bh [Some (1 / 64), Some (1 / 2), NaN, Some (1 / 128)] (1 / 16)
     = Inr ([True, False, False, True], Some (1 / 64),
            [Some (3 / 128), Some (1 / 2), NaN, Some (3 / 128)])"
  by code_simp

lemma example_order: "ascending_order [Some (1 / 64), Some (1 / 2), NaN, Some (1 / 128)] [3, 0, 1]"
  by code_simp

lemma boundary_is_pvals: "is_pvals boundary_pvals"
  by code_simp

lemma boundary_length: "length (valids boundary_pvals) = 10"
  by code_simp

lemma boundary_all_fail_list:
  "list_all (\<lambda>k. \<not> passes (sort (valids boundary_pvals)) (round_double 0.05) k) [0..<10]"
  by code_simp

lemma boundary_all_fail:
  assumes "k < 10"
  shows "\<not> passes (sort (valids boundary_pvals)) (round_double 0.05) k"
proof -
  have "0 \<le> k \<and> k < 10" using assms by simp
  then have "k \<in> {0..<10}" by (simp only: atLeastLessThan_iff)
  then have "k \<in> set [0..<10]" by (simp only: set_upt)
  then show ?thesis using boundary_all_fail_list unfolding list_all_iff by blast
qed

lemma boundary_adjusted:
  "fmul (fdiv 10 7) (sort (valids boundary_pvals) ! 6) \<le> round_double 0.05"
  by code_simp

text \<open>
  The comparisons agree on the input of the second test as well, and disagree on the
  input at the threshold boundary.
\<close>

lemma p_vals_2_is_pvals: "is_pvals p_vals_2"
  by code_simp

lemma p_vals_2_agree: "comparisons_agree (sort (valids p_vals_2)) (round_double 0.05)"
  by code_simp

lemma boundary_disagree:
  "\<not> comparisons_agree (sort (valids boundary_pvals)) (round_double 0.05)"
  by code_simp

lemma boundary_entry: "boundary_pvals ! 6 = Some (sort (valids boundary_pvals) ! 6)"
  by code_simp

section \<open>The properties of the specification\<close>

text \<open>
  C1, as the specification has it: for the ten p-values of the first test and
  \<open>q = 0.05\<close>, exactly four flags are true and the critical p-value is 0.041. The
  thresholds \<open>(k / 10) * 0.05\<close> are 0.005, 0.010, 0.015, 0.020 and so on (up to
  rounding): only the first two sorted p-values, 0.001 and 0.008, are within theirs, so
  two flags are true and the critical p-value is 0.008.
\<close>

theorem classic_example_counterexample:
  "count_list (fst (projr (fdr_bh p_vals_1 (round_double 0.05)))) True \<noteq> 4
   \<and> fst (snd (projr (fdr_bh p_vals_1 (round_double 0.05)))) \<noteq> Some (round_double 0.041)"
proof -
  from p_vals_1_result obtain adj_p where "fdr_bh p_vals_1 (round_double 0.05) =
     Inr ([True, True, False, False, False, False, False, False, False, False],
          Some (round_double 0.008), adj_p)"
    by blast
  moreover have "round_double 0.008 \<noteq> round_double 0.041" by code_simp
  ultimately show ?thesis by simp
qed

text \<open>
  C1, amended: for that input and \<open>q = 0.05\<close>, exactly two flags are true, those of
  the ranks 1 and 2, and the critical p-value is 0.008.
\<close>

theorem classic_example_result:
  "\<exists>h adj_p. fdr_bh p_vals_1 (round_double 0.05) = Inr (h, Some (round_double 0.008), adj_p)
     \<and> h = [True, True, False, False, False, False, False, False, False, False]
     \<and> count_list h True = 2"
proof -
  from p_vals_1_result obtain adj_p where "fdr_bh p_vals_1 (round_double 0.05) =
     Inr ([True, True, False, False, False, False, False, False, False, False],
          Some (round_double 0.008), adj_p)"
    by blast
  then show ?thesis by simp
qed

text \<open>
  C2. Let the p-values be doubles in \<open>[0, 1]\<close> and let \<open>ord\<close> enumerate the positions of the
  \<open>m \<ge> 1\<close> valid entries in ascending order of their p-value. Read along \<open>ord\<close>, the
  adjusted value at the last rank is its raw p-value, and at every earlier rank \<open>k + 1\<close>
  it is \<open>min(1, min((m / (k + 1)) * p, adjusted value at the next rank))\<close>, quotient and
  product in double precision; every adjusted value is at most 1.
\<close>

theorem adjusted_step_down:
  assumes "is_pvals pvals" and "ascending_order pvals ord" and "ord \<noteq> []"
  shows "\<exists>h crit_p adj_p. fdr_bh pvals q = Inr (h, crit_p, adj_p)
     \<and> adj_p ! (last ord) = pvals ! (last ord)
     \<and> (\<forall>k. k + 1 < length ord \<longrightarrow>
           (\<exists>x y. pvals ! (ord ! k) = Some x \<and> adj_p ! (ord ! (k + 1)) = Some y
              \<and> adj_p ! (ord ! k) = Some (min 1 (min (fmul (fdiv (real (length ord)) (real (k + 1))) x) y))))
     \<and> (\<forall>i<length pvals. \<forall>a. adj_p ! i = Some a \<longrightarrow> a \<le> 1)"
proof -
  let ?sp = "sort (valids pvals)"
  let ?n = "length ord"
  have sp: "map (\<lambda>i. the (pvals ! i)) ord = ?sp" using ascending_order_sorted [OF assms(2)] .
  then have n: "length ?sp = ?n" by (metis length_map)
  have ne: "valids pvals \<noteq> []" using n assms(3) by auto
  from fdr_bh_unit_form [OF assms(1) ne, of q] obtain c F b G where
    sd: "step_down ?sp b" and G: "b = map G ?sp" and
    r: "fdr_bh pvals q =
          Inr (map (\<lambda>p. case p of None \<Rightarrow> False | Some v \<Rightarrow> F v) pvals, Some c,
               map (map_option G) pvals)"
    by blast
  let ?adj = "map (map_option G) pvals"
  have bG: "\<And>k. k < ?n \<Longrightarrow> b ! k = G (?sp ! k)" using G n by simp
  have one: "\<And>v. v \<in> set ?sp \<Longrightarrow> v \<le> 1" using is_pvals_unit [OF assms(1)] by blast
  have pos: "ord ! k < length pvals \<and> pvals ! (ord ! k) = Some (?sp ! k)" if k: "k < ?n" for k
  proof -
    have "ord ! k \<in> set (valid_positions pvals)"
      using assms(2) k unfolding ascending_order_def by (metis mset_eq_setD nth_mem)
    then have v: "ord ! k < length pvals" "pvals ! (ord ! k) \<noteq> NaN"
      by (simp_all add: valid_positions_set)
    have "?sp ! k = the (pvals ! (ord ! k))" using sp k by (metis nth_map)
    then show ?thesis using v by auto
  qed
  have at: "?adj ! (ord ! k) = Some (b ! k)" if k: "k < ?n" for k
    using pos [OF k] bG [OF k] by simp
  have lastk: "last ord = ord ! (?n - 1)" using assms(3) by (simp add: last_conv_nth)
  have n0: "?n - 1 < ?n" using assms(3) by simp
  have c1: "?adj ! (last ord) = pvals ! (last ord)"
    using at [OF n0] pos [OF n0] step_down_last [OF sd] n lastk by simp
  have c2: "\<exists>x y. pvals ! (ord ! k) = Some x \<and> ?adj ! (ord ! (k + 1)) = Some y
              \<and> ?adj ! (ord ! k) = Some (min 1 (min (fmul (fdiv (real ?n) (real (k + 1))) x) y))"
    if k: "k + 1 < ?n" for k
  proof -
    have k0: "k < ?n" using k by simp
    have "b ! k = min 1 (min (fmul (fdiv (real ?n) (real (k + 1))) (?sp ! k)) (b ! (k + 1)))"
      using step_down_Suc [OF sd, of k] k n by simp
    then show ?thesis using at [OF k0] at [OF k] pos [OF k0] by simp
  qed
  have c3: "a \<le> 1" if i: "i < length pvals" and a: "?adj ! i = Some a" for i a
  proof -
    from i a obtain x where x: "pvals ! i = Some x" "a = G x" by auto
    from valid_nth_sorted [OF i x(1)] obtain k where k: "k < length ?sp" "?sp ! k = x" by blast
    then show ?thesis using step_down_le_one [OF sd one k(1)] bG n x(2) by simp
  qed
  show ?thesis using r c1 c2 c3 by blast
qed

theorem adjusted_step_down_witness:
  "is_pvals [Some (1 / 64), Some (1 / 2), NaN, Some (1 / 128)]
   \<and> ascending_order [Some (1 / 64), Some (1 / 2), NaN, Some (1 / 128)] [3, 0, 1]
   \<and> [3, 0, 1 :: nat] \<noteq> []
   \<and> (\<exists>h crit_p adj_p.
         fdr_bh [Some (1 / 64), Some (1 / 2), NaN, Some (1 / 128)] (1 / 16) = Inr (h, crit_p, adj_p)
         \<and> adj_p ! 1 = Some (1 / 2)
         \<and> adj_p ! 0 = Some (min 1 (min (fmul (fdiv 3 2) (1 / 64)) (1 / 2)))
         \<and> adj_p ! 3 = Some (min 1 (min (fmul (fdiv 3 1) (1 / 128))
                                  (min 1 (min (fmul (fdiv 3 2) (1 / 64)) (1 / 2))))))"
proof -
  let ?p = "[Some (1 / 64), Some (1 / 2), NaN, Some (1 / 128 :: real)]"
  let ?ord = "[3, 0, 1 :: nat]"
  have ne: "?ord \<noteq> []" by simp
  from adjusted_step_down [OF example_is_pvals example_order ne, of "1 / 16"]
  obtain h crit_p adj_p where
    r: "fdr_bh ?p (1 / 16) = Inr (h, crit_p, adj_p)" and
    l: "adj_p ! (last ?ord) = ?p ! (last ?ord)" and
    s: "\<forall>k. k + 1 < length ?ord \<longrightarrow>
           (\<exists>x y. ?p ! (?ord ! k) = Some x \<and> adj_p ! (?ord ! (k + 1)) = Some y
              \<and> adj_p ! (?ord ! k) = Some (min 1 (min (fmul (fdiv (real (length ?ord)) (real (k + 1))) x) y)))"
    by blast
  have a1: "adj_p ! 1 = Some (1 / 2)" using l by simp
  from s [rule_format, of 1] obtain x1 y1 where
    k1: "?p ! (?ord ! 1) = Some x1" "adj_p ! (?ord ! (1 + 1)) = Some y1"
        "adj_p ! (?ord ! 1) = Some (min 1 (min (fmul (fdiv (real (length ?ord)) (real (1 + 1))) x1) y1))"
    by auto
  have x1: "x1 = 1 / 64" and y1: "y1 = 1 / 2" using k1(1,2) a1 by simp_all
  have a0: "adj_p ! 0 = Some (min 1 (min (fmul (fdiv 3 2) (1 / 64)) (1 / 2)))"
    using k1(3) unfolding x1 y1 by simp
  from s [rule_format, of 0] obtain x0 y0 where
    k0: "?p ! (?ord ! 0) = Some x0" "adj_p ! (?ord ! (0 + 1)) = Some y0"
        "adj_p ! (?ord ! 0) = Some (min 1 (min (fmul (fdiv (real (length ?ord)) (real (0 + 1))) x0) y0))"
    by auto
  have x0: "x0 = 1 / 128" and y0: "y0 = min 1 (min (fmul (fdiv 3 2) (1 / 64)) (1 / 2))"
    using k0(1,2) a0 by simp_all
  have a3: "adj_p ! 3 = Some (min 1 (min (fmul (fdiv 3 1) (1 / 128))
                                  (min 1 (min (fmul (fdiv 3 2) (1 / 64)) (1 / 2)))))"
    using k0(3) unfolding x0 y0 by simp
  show ?thesis using example_is_pvals example_order r a1 a0 a3 by blast
qed

text \<open>
  C3. If the sorted position \<open>k\<close> (rank \<open>k + 1\<close>) is the last one whose sorted p-value
  is within its threshold, the critical p-value is that sorted p-value, and a valid entry
  is flagged exactly when its raw p-value is at most the critical p-value.
\<close>

theorem crit_p_largest_passing_rank:
  assumes "valids pvals \<noteq> []" and "k < length (valids pvals)"
    and "passes (sort (valids pvals)) q k"
    and "\<forall>j. k < j \<and> j < length (valids pvals) \<longrightarrow> \<not> passes (sort (valids pvals)) q j"
  shows "\<exists>h adj_p. fdr_bh pvals q = Inr (h, Some (sort (valids pvals) ! k), adj_p)
           \<and> length h = length pvals
           \<and> (\<forall>i<length pvals. \<forall>v. pvals ! i = Some v \<longrightarrow> (h ! i \<longleftrightarrow> v \<le> sort (valids pvals) ! k))"
proof -
  from fdr_bh_some_passes [OF assms(2,3)] assms(4) obtain adj_p where
    "fdr_bh pvals q =
       Inr (map (\<lambda>p. case p of None \<Rightarrow> False | Some v \<Rightarrow> v \<le> sort (valids pvals) ! k) pvals,
            Some (sort (valids pvals) ! k), adj_p)"
    by blast
  then show ?thesis by simp
qed

theorem crit_p_largest_passing_rank_witness:
  "valids [Some (1 / 2), NaN, Some (1 / 128), Some (1 / 128)] \<noteq> []
   \<and> (1 :: nat) < length (valids [Some (1 / 2), NaN, Some (1 / 128), Some (1 / 128)])
   \<and> passes (sort (valids [Some (1 / 2), NaN, Some (1 / 128), Some (1 / 128)])) (1 / 16) 1
   \<and> \<not> passes (sort (valids [Some (1 / 2), NaN, Some (1 / 128), Some (1 / 128)])) (1 / 16) 2
   \<and> (\<exists>h adj_p. fdr_bh [Some (1 / 2), NaN, Some (1 / 128), Some (1 / 128)] (1 / 16)
          = Inr (h, Some (1 / 128), adj_p) \<and> \<not> h ! 0 \<and> h ! 2 \<and> h ! 3)"
proof -
  let ?p = "[Some (1 / 2), NaN, Some (1 / 128), Some (1 / 128 :: real)]"
  have a: "valids ?p \<noteq> []" by simp
  have b: "(1 :: nat) < length (valids ?p)" by simp
  have s: "sort (valids ?p) = [1 / 128, 1 / 128, 1 / 2]" by simp
  have c: "passes (sort (valids ?p)) (1 / 16) 1" by code_simp
  have d: "\<not> passes (sort (valids ?p)) (1 / 16) 2" by code_simp
  have e: "\<forall>j. 1 < j \<and> j < length (valids ?p) \<longrightarrow> \<not> passes (sort (valids ?p)) (1 / 16) j"
  proof (intro allI impI)
    fix j :: nat assume "1 < j \<and> j < length (valids ?p)"
    then have "j = 2" by simp
    then show "\<not> passes (sort (valids ?p)) (1 / 16) j" using d by simp
  qed
  from crit_p_largest_passing_rank [OF a b c e] obtain h adj_p where
    r: "fdr_bh ?p (1 / 16) = Inr (h, Some (sort (valids ?p) ! 1), adj_p)"
       "\<forall>i<length ?p. \<forall>v. ?p ! i = Some v \<longrightarrow> (h ! i \<longleftrightarrow> v \<le> sort (valids ?p) ! 1)"
       "length h = length ?p"
    by blast
  have h0: "\<not> h ! 0" using r(2) [rule_format, of 0 "1 / 2"] unfolding s by simp
  have h2: "h ! 2" using r(2) [rule_format, of 2 "1 / 128"] unfolding s by simp
  have h3: "h ! 3" using r(2) [rule_format, of 3 "1 / 128"] unfolding s by simp
  have "sort (valids ?p) ! 1 = 1 / 128" unfolding s by simp
  then have "fdr_bh ?p (1 / 16) = Inr (h, Some (1 / 128), adj_p)" using r(1) by simp
  then show ?thesis using a b c d h0 h2 h3 by blast
qed

text \<open>
  C4. With at least one valid entry and no rank within its threshold, the critical
  p-value is 0 and no flag is true; so it is for the eleven p-values of the second test
  and \<open>q = 0.05\<close>.
\<close>

theorem no_passing_rank:
  "(valids pvals \<noteq> [] \<and> (\<forall>k<length (valids pvals). \<not> passes (sort (valids pvals)) q k)
      \<longrightarrow> (\<exists>adj_p. fdr_bh pvals q = Inr (replicate (length pvals) False, Some 0, adj_p)))
   \<and> (\<exists>adj_p. fdr_bh p_vals_2 (round_double 0.05) = Inr (replicate 11 False, Some 0, adj_p))"
  using fdr_bh_none_passes [of pvals q] p_vals_2_result by blast

theorem no_passing_rank_witness:
  "valids [Some (3 / 64), NaN, Some (1 / 2)] \<noteq> []
   \<and> \<not> passes (sort (valids [Some (3 / 64), NaN, Some (1 / 2)])) (1 / 16) 0
   \<and> \<not> passes (sort (valids [Some (3 / 64), NaN, Some (1 / 2)])) (1 / 16) 1
   \<and> (\<exists>adj_p. fdr_bh [Some (3 / 64), NaN, Some (1 / 2)] (1 / 16) = Inr ([False, False, False], Some 0, adj_p))"
proof -
  let ?p = "[Some (3 / 64), NaN, Some (1 / 2 :: real)]"
  have a: "valids ?p \<noteq> []" by simp
  have b: "\<not> passes (sort (valids ?p)) (1 / 16) 0" by code_simp
  have c: "\<not> passes (sort (valids ?p)) (1 / 16) 1" by code_simp
  have d: "\<forall>k<length (valids ?p). \<not> passes (sort (valids ?p)) (1 / 16) k"
  proof (intro allI impI)
    fix k assume "k < length (valids ?p)"
    then have "k = 0 \<or> k = 1" by auto
    then show "\<not> passes (sort (valids ?p)) (1 / 16) k" using b c by blast
  qed
  have "\<exists>adj_p. fdr_bh ?p (1 / 16) = Inr (replicate (length ?p) False, Some 0, adj_p)"
    using no_passing_rank [of ?p "1 / 16"] a d by blast
  then have "\<exists>adj_p. fdr_bh ?p (1 / 16) = Inr ([False, False, False], Some 0, adj_p)"
    by (simp add: numeral_3_eq_3)
  then show ?thesis using a b c by blast
qed

text \<open>
  C5. For p-values that are doubles in \<open>[0, 1]\<close>: of two valid entries, the one with the smaller or
  equal raw p-value has the smaller or equal adjusted value (so tied p-values have equal
  adjusted values), and every adjusted value is at most 1.
\<close>

theorem adjusted_monotone:
  assumes "is_pvals pvals"
  shows "\<exists>h crit_p adj_p. fdr_bh pvals q = Inr (h, crit_p, adj_p)
     \<and> (\<forall>i<length pvals. \<forall>j<length pvals. \<forall>x y.
           pvals ! i = Some x \<and> pvals ! j = Some y \<and> x \<le> y \<longrightarrow>
           (\<exists>a b. adj_p ! i = Some a \<and> adj_p ! j = Some b \<and> a \<le> b))
     \<and> (\<forall>i<length pvals. \<forall>a. adj_p ! i = Some a \<longrightarrow> a \<le> 1)"
proof (cases "valids pvals = []")
  case True
  then have nan: "\<And>i. i < length pvals \<Longrightarrow> pvals ! i = NaN"
    by (simp add: valids_empty_iff)
  show ?thesis
  proof (cases "pvals = []")
    case True
    then show ?thesis by (simp add: fdr_bh_empty)
  next
    case False
    have "fdr_bh pvals q = Inr (replicate (length pvals) False, NaN, replicate (length pvals) NaN)"
      using fdr_bh_all_missing [OF False True] .
    then show ?thesis using nan by simp
  qed
next
  case False
  let ?sp = "sort (valids pvals)"
  from fdr_bh_unit_form [OF assms False, of q] obtain c F b G where
    sd: "step_down ?sp b" and G: "b = map G ?sp" and
    r: "fdr_bh pvals q =
          Inr (map (\<lambda>p. case p of None \<Rightarrow> False | Some v \<Rightarrow> F v) pvals, Some c,
               map (map_option G) pvals)"
    by blast
  have lb: "length b = length ?sp" using G by simp
  have bG: "\<And>k. k < length ?sp \<Longrightarrow> b ! k = G (?sp ! k)" using G by simp
  have one: "\<And>v. v \<in> set ?sp \<Longrightarrow> v \<le> 1" using is_pvals_unit [OF assms] by blast
  have mono: "G x \<le> G y" if i: "i < length pvals" "pvals ! i = Some x"
    and j: "j < length pvals" "pvals ! j = Some y" and xy: "x \<le> y" for i j x y
  proof (cases "x = y")
    case True
    then show ?thesis by simp
  next
    case False
    from valid_nth_sorted [OF i] obtain kx where kx: "kx < length ?sp" "?sp ! kx = x" by blast
    from valid_nth_sorted [OF j] obtain ky where ky: "ky < length ?sp" "?sp ! ky = y" by blast
    have "kx \<le> ky"
    proof (rule ccontr)
      assume "\<not> kx \<le> ky"
      then have "ky \<le> kx" by simp
      then have "?sp ! ky \<le> ?sp ! kx"
        using sorted_nth_mono [OF sorted_sort [of "valids pvals"], of ky kx] kx(1) by simp
      then show False using kx(2) ky(2) xy False by simp
    qed
    then have "b ! kx \<le> b ! ky" using step_down_mono [OF sd _ ky(1)] by blast
    then show ?thesis using bG kx ky by simp
  qed
  have le1: "G x \<le> 1" if i: "i < length pvals" "pvals ! i = Some x" for i x
  proof -
    from valid_nth_sorted [OF i] obtain kx where kx: "kx < length ?sp" "?sp ! kx = x" by blast
    then show ?thesis using step_down_le_one [OF sd one kx(1)] bG by simp
  qed
  show ?thesis
  proof (intro exI conjI allI impI)
    show "fdr_bh pvals q =
          Inr (map (\<lambda>p. case p of None \<Rightarrow> False | Some v \<Rightarrow> F v) pvals, Some c,
               map (map_option G) pvals)" by fact
  next
    fix i j x y
    assume i: "i < length pvals" and j: "j < length pvals"
      and e: "pvals ! i = Some x \<and> pvals ! j = Some y \<and> x \<le> y"
    then show "map (map_option G) pvals ! i = Some (G x)"
      and "map (map_option G) pvals ! j = Some (G y)" and "G x \<le> G y"
      using mono [of i x j y] by simp_all
  next
    fix i a
    assume i: "i < length pvals" and a: "map (map_option G) pvals ! i = Some a"
    then obtain x where "pvals ! i = Some x" "a = G x" by auto
    then show "a \<le> 1" using le1 [OF i] by simp
  qed
qed

theorem adjusted_monotone_witness:
  "is_pvals [Some (1 / 64), Some (1 / 2), NaN, Some (1 / 128)]
   \<and> (\<exists>h crit_p adj_p a b.
         fdr_bh [Some (1 / 64), Some (1 / 2), NaN, Some (1 / 128)] (1 / 16) = Inr (h, crit_p, adj_p)
         \<and> adj_p ! 3 = Some a \<and> adj_p ! 1 = Some b \<and> a \<le> b \<and> b \<le> 1)"
proof -
  let ?p = "[Some (1 / 64), Some (1 / 2), NaN, Some (1 / 128 :: real)]"
  from adjusted_monotone [OF example_is_pvals, of "1 / 16"] obtain h crit_p adj_p where
    r: "fdr_bh ?p (1 / 16) = Inr (h, crit_p, adj_p)" and
    m: "\<forall>i<length ?p. \<forall>j<length ?p. \<forall>x y.
           ?p ! i = Some x \<and> ?p ! j = Some y \<and> x \<le> y \<longrightarrow>
           (\<exists>a b. adj_p ! i = Some a \<and> adj_p ! j = Some b \<and> a \<le> b)" and
    o: "\<forall>i<length ?p. \<forall>a. adj_p ! i = Some a \<longrightarrow> a \<le> 1"
    by blast
  from m [rule_format, of 3 1 "1 / 128" "1 / 2"] obtain a b where
    ab: "adj_p ! 3 = Some a" "adj_p ! 1 = Some b" "a \<le> b" by auto
  have "b \<le> 1" using o [rule_format, of 1 b] ab(2) by simp
  then show ?thesis using example_is_pvals r ab by blast
qed

text \<open>
  C6, as the specification has it: for p-values in \<open>[0, 1]\<close> and every valid entry, the
  adjusted value is at most \<open>q\<close> exactly when the flag is true. The flag compares the
  p-value with the rounded \<open>(k / m) * q\<close>, the adjusted value is the rounded
  \<open>(m / k) * p\<close>, and the two roundings can disagree at a threshold: for seven tests
  with p-value 0.035, three with p-value 1.0 and \<open>q = 0.05\<close>, the threshold of rank 7
  is the double below 0.035 and no flag is true, while the adjusted value of the seven is
  the double 0.05 itself.
\<close>

theorem threshold_boundary_counterexample:
  "is_pvals boundary_pvals
   \<and> \<not> fst (projr (fdr_bh boundary_pvals (round_double 0.05))) ! 6
   \<and> snd (snd (projr (fdr_bh boundary_pvals (round_double 0.05)))) ! 6 \<noteq> NaN
   \<and> the (snd (snd (projr (fdr_bh boundary_pvals (round_double 0.05)))) ! 6) \<le> round_double 0.05"
proof -
  let ?q = "round_double 0.05"
  let ?sp = "sort (valids boundary_pvals)"
  have ip: "is_pvals boundary_pvals" by (rule boundary_is_pvals)
  have ne: "valids boundary_pvals \<noteq> []" using boundary_length by auto
  have len: "length boundary_pvals = 10" by (simp add: boundary_pvals_def)
  from fdr_bh_unit_form [OF ip ne, of ?q] obtain c F b G where
    sd: "step_down ?sp b" and G: "b = map G ?sp" and
    r: "fdr_bh boundary_pvals ?q =
          Inr (map (\<lambda>p. case p of None \<Rightarrow> False | Some v \<Rightarrow> F v) boundary_pvals, Some c,
               map (map_option G) boundary_pvals)"
    by blast
  from fdr_bh_none_passes [OF ne, of ?q] boundary_all_fail boundary_length obtain adj_p where
    n: "fdr_bh boundary_pvals ?q = Inr (replicate (length boundary_pvals) False, Some 0, adj_p)"
    by auto
  have h: "map (\<lambda>p. case p of None \<Rightarrow> False | Some v \<Rightarrow> F v) boundary_pvals
             = replicate (length boundary_pvals) False"
    using r n by simp
  have lsp: "length ?sp = 10" using boundary_length by simp
  have b6: "b ! 6 = min 1 (min (fmul (fdiv (real (length ?sp)) (real (6 + 1))) (?sp ! 6)) (b ! (6 + 1)))"
    using step_down_Suc [OF sd, of 6] lsp by simp
  have "b ! 6 \<le> fmul (fdiv (real (length ?sp)) (real (6 + 1))) (?sp ! 6)"
    unfolding b6 by simp
  also have "\<dots> \<le> ?q" using boundary_adjusted by (simp add: boundary_length)
  finally have le: "b ! 6 \<le> ?q" .
  have "boundary_pvals ! 6 = Some (?sp ! 6)" by (rule boundary_entry)
  then have a6: "map (map_option G) boundary_pvals ! 6 = Some (b ! 6)"
    using G lsp len by simp
  have f6: "\<not> map (\<lambda>p. case p of None \<Rightarrow> False | Some v \<Rightarrow> F v) boundary_pvals ! 6"
    unfolding h using len by simp
  show ?thesis using ip r a6 f6 le by simp
qed

text \<open>
  C6, amended: for p-values in \<open>[0, 1]\<close> and a \<open>q\<close> such that at every rank \<open>k\<close> the
  computed \<open>(m / k) * P(k)\<close> is at most \<open>q\<close> exactly when \<open>P(k)\<close> is at most the computed
  \<open>(k / m) * q\<close>, the adjusted value of every valid entry is at most \<open>q\<close> exactly when
  its flag is true. The condition holds for the input of the first test and \<open>q = 0.05\<close>.
\<close>

theorem adjusted_reproduces_flags:
  assumes "is_pvals pvals" and "comparisons_agree (sort (valids pvals)) q"
  shows "\<exists>h crit_p adj_p. fdr_bh pvals q = Inr (h, crit_p, adj_p)
     \<and> (\<forall>i<length pvals. pvals ! i \<noteq> NaN \<longrightarrow> (\<exists>a. adj_p ! i = Some a \<and> (a \<le> q \<longleftrightarrow> h ! i)))"
proof (cases "valids pvals = []")
  case True
  then have nan: "\<And>i. i < length pvals \<Longrightarrow> pvals ! i = NaN"
    by (simp add: valids_empty_iff)
  obtain h crit_p adj_p where "fdr_bh pvals q = Inr (h, crit_p, adj_p)"
    using fdr_bh_lengths [of pvals q] by blast
  then show ?thesis using nan by (intro exI [of _ h] exI [of _ crit_p] exI [of _ adj_p]) simp
next
  case False
  let ?sp = "sort (valids pvals)"
  from fdr_bh_unit_form [OF assms(1) False, of q] obtain c F b G where
    fc: "find_crit ?sp (length (valids pvals)) q = Inr (c, map F ?sp)" and
    sd: "step_down ?sp b" and G: "b = map G ?sp" and
    r: "fdr_bh pvals q =
          Inr (map (\<lambda>p. case p of None \<Rightarrow> False | Some v \<Rightarrow> F v) pvals, Some c,
               map (map_option G) pvals)"
    by blast
  have fc': "find_crit ?sp (length ?sp) q = Inr (c, map F ?sp)" using fc by simp
  have bG: "\<And>k. k < length ?sp \<Longrightarrow> b ! k = G (?sp ! k)" using G by simp
  have dec: "(G v \<le> q) = F v" if i: "i < length pvals" "pvals ! i = Some v" for i v
  proof -
    from valid_nth_sorted [OF i] obtain k where k: "k < length ?sp" "?sp ! k = v" by blast
    have "(b ! k \<le> q) = F (?sp ! k)"
      using decides_as_adjusted [OF sorted_sort is_pvals_unit [OF assms(1)] sd fc' assms(2) k(1)]
      by blast
    then show ?thesis using bG k by simp
  qed
  have "\<forall>i<length pvals. pvals ! i \<noteq> NaN \<longrightarrow>
          (\<exists>a. map (map_option G) pvals ! i = Some a
             \<and> (a \<le> q \<longleftrightarrow> map (\<lambda>p. case p of None \<Rightarrow> False | Some v \<Rightarrow> F v) pvals ! i))"
  proof (intro allI impI)
    fix i assume i: "i < length pvals" and "pvals ! i \<noteq> NaN"
    then obtain v where v: "pvals ! i = Some v" by auto
    have "map (map_option G) pvals ! i = Some (G v)" using i v by simp
    moreover have "(G v \<le> q) = map (\<lambda>p. case p of None \<Rightarrow> False | Some v \<Rightarrow> F v) pvals ! i"
      using dec [OF i v] i v by simp
    ultimately show "\<exists>a. map (map_option G) pvals ! i = Some a
             \<and> (a \<le> q \<longleftrightarrow> map (\<lambda>p. case p of None \<Rightarrow> False | Some v \<Rightarrow> F v) pvals ! i)"
      by blast
  qed
  then show ?thesis using r by blast
qed

theorem adjusted_reproduces_flags_witness:
  "is_pvals p_vals_1
   \<and> comparisons_agree (sort (valids p_vals_1)) (round_double 0.05)
   \<and> (\<exists>h crit_p adj_p a1 a2.
         fdr_bh p_vals_1 (round_double 0.05) = Inr (h, crit_p, adj_p)
         \<and> adj_p ! 1 = Some a1 \<and> a1 \<le> round_double 0.05 \<and> h ! 1
         \<and> adj_p ! 2 = Some a2 \<and> \<not> a2 \<le> round_double 0.05 \<and> \<not> h ! 2)"
proof -
  let ?q = "round_double 0.05"
  have ip: "is_pvals p_vals_1" by (rule p_vals_1_is_pvals)
  have ag: "comparisons_agree (sort (valids p_vals_1)) ?q" by (rule p_vals_1_agree)
  have len: "length p_vals_1 = 10" by (simp add: p_vals_1_def)
  have v1: "p_vals_1 ! 1 \<noteq> NaN" and v2: "p_vals_1 ! 2 \<noteq> NaN" by (simp_all add: p_vals_1_def)
  from adjusted_reproduces_flags [OF ip ag] obtain h crit_p adj_p where
    r: "fdr_bh p_vals_1 ?q = Inr (h, crit_p, adj_p)" and
    d: "\<forall>i<length p_vals_1. p_vals_1 ! i \<noteq> NaN \<longrightarrow> (\<exists>a. adj_p ! i = Some a \<and> (a \<le> ?q \<longleftrightarrow> h ! i))"
    by blast
  from p_vals_1_result r have h: "h = [True, True, False, False, False, False, False, False, False, False]"
    by auto
  from d [rule_format, of 1] v1 len obtain a1 where a1: "adj_p ! 1 = Some a1" "(a1 \<le> ?q) = h ! 1"
    by auto
  from d [rule_format, of 2] v2 len obtain a2 where a2: "adj_p ! 2 = Some a2" "(a2 \<le> ?q) = h ! 2"
    by auto
  have "h ! 1" "\<not> h ! 2" unfolding h by simp_all
  then have "a1 \<le> ?q" "\<not> a2 \<le> ?q" using a1(2) a2(2) by simp_all
  then show ?thesis using ip ag r a1(1) a2(1) \<open>h ! 1\<close> \<open>\<not> h ! 2\<close> by blast
qed

text \<open>
  C7. For p-values that are doubles in \<open>[0, 1]\<close> and a permutation \<open>perm\<close> of the positions: on the
  permuted input the routine returns the flags and the adjusted values of the original
  run permuted by \<open>perm\<close>, and the same critical p-value.
\<close>

theorem permutation_equivariant:
  assumes "is_pvals pvals" and "mset perm = mset [0..<length pvals]"
  shows "\<exists>h crit_p adj_p. fdr_bh pvals q = Inr (h, crit_p, adj_p)
     \<and> fdr_bh (map (\<lambda>i. pvals ! i) perm) q
          = Inr (map (\<lambda>i. h ! i) perm, crit_p, map (\<lambda>i. adj_p ! i) perm)"
proof -
  let ?pvals' = "map (\<lambda>i. pvals ! i) perm"
  have ms: "mset ?pvals' = mset pvals" using permuted_mset [OF assms(2)] .
  have len: "length ?pvals' = length pvals" using ms by (metis mset_eq_length)
  have mv: "mset (valids ?pvals') = mset (valids pvals)" using mset_valids [OF ms] .
  show ?thesis
  proof (cases "valids pvals = []")
    case True
    then have v': "valids ?pvals' = []" using mv by (metis mset_zero_iff)
    show ?thesis
    proof (cases "pvals = []")
      case True
      then have "perm = []" using assms(2) by simp
      then show ?thesis using True by (simp add: fdr_bh_empty)
    next
      case False
      then have ne': "?pvals' \<noteq> []" using len by (metis length_0_conv)
      have "fdr_bh ?pvals' q = Inr (replicate (length pvals) False, NaN, replicate (length pvals) NaN)"
        using fdr_bh_all_missing [OF ne' v', of q] len by simp
      then show ?thesis
        using fdr_bh_all_missing [OF False True, of q]
          permuted_replicate [OF assms(2), where d = False]
          permuted_replicate [OF assms(2), where d = "NaN :: float"]
        by simp
    qed
  next
    case False
    from fdr_bh_unit_form [OF assms(1) False, of q] obtain c F G where
      r: "\<forall>pvals'. sort (valids pvals') = sort (valids pvals) \<longrightarrow>
          fdr_bh pvals' q =
            Inr (map (\<lambda>p. case p of None \<Rightarrow> False | Some v \<Rightarrow> F v) pvals', Some c,
                 map (map_option G) pvals')"
      by blast
    have "sort (valids ?pvals') = sort (valids pvals)"
      using properties_for_sort [of "sort (valids pvals)" "valids ?pvals'"] mv by simp
    then have "fdr_bh ?pvals' q =
            Inr (map (\<lambda>p. case p of None \<Rightarrow> False | Some v \<Rightarrow> F v) ?pvals', Some c,
                 map (map_option G) ?pvals')"
      using r by blast
    then have "fdr_bh ?pvals' q =
            Inr (map (\<lambda>i. map (\<lambda>p. case p of None \<Rightarrow> False | Some v \<Rightarrow> F v) pvals ! i) perm, Some c,
                 map (\<lambda>i. map (map_option G) pvals ! i) perm)"
      by (simp only: permuted_map [OF assms(2)])
    moreover have "fdr_bh pvals q =
            Inr (map (\<lambda>p. case p of None \<Rightarrow> False | Some v \<Rightarrow> F v) pvals, Some c,
                 map (map_option G) pvals)"
      using r by blast
    ultimately show ?thesis by blast
  qed
qed

theorem permutation_equivariant_witness:
  "is_pvals [Some (1 / 64), Some (1 / 2), NaN, Some (1 / 128)]
   \<and> mset [2, 0, 3, 1] = mset [0..<length [Some (1 / 64), Some (1 / 2), NaN, Some (1 / 128 :: real)]]
   \<and> fdr_bh [NaN, Some (1 / 64), Some (1 / 128), Some (1 / 2)] (1 / 16)
        = Inr ([False, True, True, False], Some (1 / 64),
               [NaN, Some (3 / 128), Some (3 / 128), Some (1 / 2)])"
proof -
  let ?p = "[Some (1 / 64), Some (1 / 2), NaN, Some (1 / 128 :: real)]"
  have pm: "mset [2, 0, 3, 1] = mset [0..<length ?p]" by code_simp
  from permutation_equivariant [OF example_is_pvals pm, of "1 / 16"] obtain h crit_p adj_p where
    r: "fdr_bh ?p (1 / 16) = Inr (h, crit_p, adj_p)" and
    e: "fdr_bh (map (\<lambda>i. ?p ! i) [2, 0, 3, 1]) (1 / 16)
          = Inr (map (\<lambda>i. h ! i) [2, 0, 3, 1], crit_p, map (\<lambda>i. adj_p ! i) [2, 0, 3, 1])"
    by blast
  have "h = [True, False, False, True]" "crit_p = Some (1 / 64)"
    "adj_p = [Some (3 / 128), Some (1 / 2), NaN, Some (3 / 128)]"
    using r example_result by simp_all
  then show ?thesis using e example_is_pvals pm by simp
qed

text \<open>
  C8, as the specification has it: inserting a missing entry changes neither flags,
  critical p-value nor adjusted values of the other entries. On the empty input the
  critical p-value is 0; with one missing entry inserted it is NaN.
\<close>

theorem insert_into_empty_counterexample:
  "fdr_bh [] (1 / 16) = Inr ([], Some 0, [])
   \<and> fdr_bh (take 0 [] @ NaN # drop 0 []) (1 / 16) = Inr ([False], NaN, [NaN])
   \<and> NaN \<noteq> Some (0 :: real)"
  using fdr_bh_all_missing [of "[NaN]" "1 / 16"] by (simp add: fdr_bh_empty)

text \<open>
  C8, amended: at every position of a missing entry the flag is false and the adjusted
  value is NaN; flags and adjusted values have the length of the input, and the adjusted
  value of a valid entry is a number; and inserting a missing entry at any position of a
  non-empty input inserts a false flag and a NaN at that position and changes nothing
  else, the critical p-value included.
\<close>

theorem missing_entries_kept_apart:
  "\<exists>h crit_p adj_p. fdr_bh pvals q = Inr (h, crit_p, adj_p)
     \<and> length h = length pvals \<and> length adj_p = length pvals
     \<and> (\<forall>i<length pvals. pvals ! i = NaN \<longrightarrow> \<not> h ! i \<and> adj_p ! i = NaN)
     \<and> (\<forall>i<length pvals. pvals ! i \<noteq> NaN \<longrightarrow> adj_p ! i \<noteq> NaN)
     \<and> (pvals \<noteq> [] \<longrightarrow>
          (\<forall>i\<le>length pvals.
             fdr_bh (take i pvals @ NaN # drop i pvals) q
               = Inr (take i h @ False # drop i h, crit_p, take i adj_p @ NaN # drop i adj_p)))"
proof (cases "valids pvals = []")
  case True
  then have nan: "\<And>i. i < length pvals \<Longrightarrow> pvals ! i = NaN"
    by (simp add: valids_empty_iff)
  show ?thesis
  proof (cases "pvals = []")
    case True
    then show ?thesis by (simp add: fdr_bh_empty)
  next
    case False
    let ?n = "length pvals"
    have r: "fdr_bh pvals q = Inr (replicate ?n False, NaN, replicate ?n NaN)"
      using fdr_bh_all_missing [OF False True] .
    have ins: "fdr_bh (take i pvals @ NaN # drop i pvals) q
               = Inr (take i (replicate ?n False) @ False # drop i (replicate ?n False), NaN,
                      take i (replicate ?n NaN) @ NaN # drop i (replicate ?n NaN))"
      if i: "i \<le> ?n" for i
    proof -
      let ?p = "take i pvals @ NaN # drop i pvals"
      have l: "length ?p = Suc ?n" using i by simp
      have e: "\<And>d :: 'a. take i (replicate ?n d) @ d # drop i (replicate ?n d) = replicate (Suc ?n) d"
      proof -
        fix d :: 'a
        have "take i (replicate ?n d) @ d # drop i (replicate ?n d)
                = replicate i d @ replicate (Suc (?n - i)) d"
          using i by (simp add: min_def)
        also have "\<dots> = replicate (i + Suc (?n - i)) d" by (simp only: replicate_add)
        finally show "take i (replicate ?n d) @ d # drop i (replicate ?n d) = replicate (Suc ?n) d"
          using i by simp
      qed
      have "fdr_bh ?p q = Inr (replicate (length ?p) False, NaN, replicate (length ?p) NaN)"
        using fdr_bh_all_missing [of ?p q] True by (simp only: valids_insert_missing) simp
      then show ?thesis unfolding l by (simp only: e)
    qed
    show ?thesis using r nan ins False by simp
  qed
next
  case False
  let ?n = "length pvals"
  let ?valid = "valids pvals"
  let ?msk = "map (\<lambda>p. \<not> isnan p) pvals"
  from fdr_bh_valid_form [OF False, of q] obtain c F b au where
    lau: "length au = length ?valid" and sau: "set au \<subseteq> Some ` set b" and
    bv: "bh_valid (argsort ?valid) ?valid q = Inr (map F ?valid, c, au)" and
    r: "fdr_bh pvals q =
        Inr (map (\<lambda>p. case p of None \<Rightarrow> False | Some v \<Rightarrow> F v) pvals, Some c,
             mask_assign (replicate ?n NaN) ?msk au)"
    by blast
  let ?h = "map (\<lambda>p. case p of None \<Rightarrow> False | Some v \<Rightarrow> F v) pvals"
  let ?adj = "mask_assign (replicate ?n NaN) ?msk au"
  have l1: "length ?h = ?n" by simp
  have l2: "length ?adj = ?n" by (simp add: mask_assign_length)
  have m1: "\<not> ?h ! i \<and> ?adj ! i = NaN" if "i < ?n" "pvals ! i = NaN" for i
    using that mask_assign_nth [OF lau that(1), of NaN] by simp
  have m2: "?adj ! i \<noteq> NaN" if i: "i < ?n" and v: "pvals ! i \<noteq> NaN" for i
  proof -
    from v obtain x where x: "pvals ! i = Some x" by auto
    have "length (valids (take i pvals)) < length au"
      using valids_take_less [OF i x] lau by simp
    then have "au ! length (valids (take i pvals)) \<in> set au" by (rule nth_mem)
    then have "au ! length (valids (take i pvals)) \<noteq> NaN" using sau by auto
    then show ?thesis using mask_assign_nth [OF lau i, of NaN] v by simp
  qed
  have ins: "fdr_bh (take i pvals @ NaN # drop i pvals) q
               = Inr (take i ?h @ False # drop i ?h, Some c, take i ?adj @ NaN # drop i ?adj)"
    if i: "i \<le> ?n" for i
  proof -
    let ?p = "take i pvals @ NaN # drop i pvals"
    have v: "valids ?p = ?valid" by (rule valids_insert_missing)
    have ne: "valids ?p \<noteq> []" using False v by simp
    have li: "length (take i pvals) = i" using i by simp
    have split: "take i pvals @ drop i pvals = pvals" by simp
    have lh: "length (map F ?valid) = length (valids (take i pvals @ drop i pvals))" by simp
    have la: "length au = length (valids (take i pvals @ drop i pvals))" using lau by simp
    have hh: "mask_assign (replicate ?n False) ?msk (map F ?valid) = ?h"
      by (rule mask_assign_map)
    have ph: "mask_put (replicate (length ?p) False) (map (\<lambda>p. \<not> isnan p) ?p) (map F ?valid)
                = Inr (take i ?h @ False # drop i ?h)"
      using mask_put_valid [of "map F ?valid" ?p False] mask_assign_insert [OF lh, of False]
      unfolding v li split hh by simp
    have pa: "mask_put (replicate (length ?p) NaN) (map (\<lambda>p. \<not> isnan p) ?p) au
                = Inr (take i ?adj @ NaN # drop i ?adj)"
      using mask_put_valid [of au ?p NaN] mask_assign_insert [OF la, of NaN] lau
      unfolding v li split by simp
    show ?thesis
      by (simp only: fdr_bh_unfold [OF ne] v bv err_bind_Inr prod.case ph pa)
  qed
  show ?thesis
  proof (intro exI [of _ ?h] exI [of _ "Some c"] exI [of _ ?adj] conjI allI impI)
    show "fdr_bh pvals q = Inr (?h, Some c, ?adj)" by fact
    show "length ?h = ?n" by fact
    show "length ?adj = ?n" by fact
  next
    fix i assume "i < ?n" "pvals ! i = NaN"
    then show "\<not> ?h ! i" and "?adj ! i = NaN" using m1 by blast+
  next
    fix i assume "i < ?n" "pvals ! i \<noteq> NaN"
    then show "?adj ! i \<noteq> NaN" using m2 by blast
  next
    fix i assume "pvals \<noteq> []" "i \<le> ?n"
    then show "fdr_bh (take i pvals @ NaN # drop i pvals) q
               = Inr (take i ?h @ False # drop i ?h, Some c, take i ?adj @ NaN # drop i ?adj)"
      using ins by blast
  qed
qed

theorem missing_entries_kept_apart_witness:
  "[Some (1 / 64), Some (1 / 2), NaN, Some (1 / 128 :: real)] \<noteq> []
   \<and> fdr_bh [Some (1 / 64), NaN, Some (1 / 2), NaN, Some (1 / 128)] (1 / 16)
        = Inr ([True, False, False, False, True], Some (1 / 64),
               [Some (3 / 128), NaN, Some (1 / 2), NaN, Some (3 / 128)])"
proof -
  let ?p = "[Some (1 / 64), Some (1 / 2), NaN, Some (1 / 128 :: real)]"
  from missing_entries_kept_apart [of ?p "1 / 16"] obtain h crit_p adj_p where
    r: "fdr_bh ?p (1 / 16) = Inr (h, crit_p, adj_p)" and
    i: "?p \<noteq> [] \<longrightarrow> (\<forall>i\<le>length ?p. fdr_bh (take i ?p @ NaN # drop i ?p) (1 / 16)
               = Inr (take i h @ False # drop i h, crit_p, take i adj_p @ NaN # drop i adj_p))"
    by blast
  have v: "h = [True, False, False, True]" "crit_p = Some (1 / 64)"
    "adj_p = [Some (3 / 128), Some (1 / 2), NaN, Some (3 / 128)]"
    using r example_result by simp_all
  have "fdr_bh (take 1 ?p @ NaN # drop 1 ?p) (1 / 16)
               = Inr (take 1 h @ False # drop 1 h, crit_p, take 1 adj_p @ NaN # drop 1 adj_p)"
    using i [rule_format, of 1] by simp
  then show ?thesis unfolding v by simp
qed

text \<open>
  C9, as the specification has it: on a non-empty vector of missing entries only, the
  critical p-value is the sentinel zero. The routine returns NaN there (line 16); zero is
  what it returns when valid entries exist and none passes.
\<close>

theorem all_missing_crit_p_counterexample:
  "fdr_bh [NaN, NaN] (5 / 100) = Inr ([False, False], NaN, [NaN, NaN]) \<and> NaN \<noteq> Some (0 :: real)"
  using fdr_bh_all_missing [of "[NaN, NaN]" "5 / 100"] by simp

text \<open>
  C9, amended: on a non-empty vector in which every entry is missing, all flags are
  false, all adjusted values are NaN, and the critical p-value is NaN.
\<close>

theorem fdr_bh_all_missing_result:
  "pvals \<noteq> [] \<Longrightarrow> \<forall>p \<in> set pvals. p = NaN \<Longrightarrow>
   fdr_bh pvals q = Inr (replicate (length pvals) False, NaN, replicate (length pvals) NaN)"
  using fdr_bh_all_missing [of pvals q] by (simp add: valids_empty_iff)

theorem fdr_bh_all_missing_result_witness:
  "[NaN, NaN, NaN] \<noteq> [] \<and> list_all (\<lambda>p. p = NaN) [NaN, NaN, NaN :: float]
   \<and> fdr_bh [NaN, NaN, NaN] (1 / 16) = Inr ([False, False, False], NaN, [NaN, NaN, NaN])"
  using fdr_bh_all_missing_result [of "[NaN, NaN, NaN]" "1 / 16"]
  by (simp add: numeral_3_eq_3)

text \<open>
  C10. \<open>fdr_bh\<close> is total: for every vector of numbers and missing entries and every
  \<open>q\<close> it returns its three results, none of the index or shape errors of the array
  operations is reached, and flags and adjusted values have the length of the input. On
  the empty vector the flags and the adjusted values are empty.
\<close>

theorem fdr_bh_total:
  "(\<exists>h crit_p adj_p. fdr_bh pvals q = Inr (h, crit_p, adj_p)
      \<and> length h = length pvals \<and> length adj_p = length pvals)
   \<and> fdr_bh [] q = Inr ([], Some 0, [])"
  using fdr_bh_lengths [of pvals q] by (simp add: fdr_bh_empty)

end
